theory Spec2Isabelle
  imports Complex_Main
begin

section \<open>Data model\<close>

text \<open>
  A data point of the series: \<open>d[properties.xData]\<close> is its timestamp (the column
  \<open>Date\<close>), \<open>d[properties.yData]\<close> its value (the column \<open>Count\<close>). Timestamps are
  compared as numbers (\<open>new Date(id) < new Date(autoDetectUntil)\<close>) and used as
  keys of objects; values are JavaScript numbers, taken here as exact reals. Inside
  \<open>calculateSignals\<close> and \<open>summaryStatistics\<close> the name \<open>properties\<close> is the global object
  that \<open>index.html\<close> declares and passes to \<open>displayChart\<close>; the model takes it to be the
  configured object, with the columns \<open>Date\<close> and \<open>Count\<close>.
\<close>

record point =
  Date :: int
  Count :: real

text \<open>
  A JavaScript number that may be \<open>undefined\<close> (or \<open>NaN\<close>): \<open>None\<close> stands for both,
  since every comparison with either is false.
\<close>

type_synonym jsnum = "real option"

datatype error = TypeError

subsection \<open>The signal catalogue (\<open>SignalEnum\<close>)\<close>

datatype signal =
    EIGHT_OVER_MEAN
  | EIGHT_UNDER_MEAN
  | TWO_OVER_TWO
  | TWO_UNDER_TWO
  | THREE_OVER_ONE_FIVE
  | THREE_UNDER_ONE_FIVE
  | ONE_OVER_THREE
  | ONE_UNDER_THREE

text \<open>The keys of \<open>SignalEnum\<close> in the order \<open>for (let i in SignalEnum)\<close> visits them.\<close>

definition SignalEnum :: "signal list" where
  "SignalEnum =
     [EIGHT_OVER_MEAN, EIGHT_UNDER_MEAN, TWO_OVER_TWO, TWO_UNDER_TWO,
      THREE_OVER_ONE_FIVE, THREE_UNDER_ONE_FIVE, ONE_OVER_THREE, ONE_UNDER_THREE]"

text \<open>The field \<open>length\<close> of a catalogue entry.\<close>

fun sig_length :: "signal \<Rightarrow> nat" where
  "sig_length EIGHT_OVER_MEAN = 8"
| "sig_length EIGHT_UNDER_MEAN = 8"
| "sig_length TWO_OVER_TWO = 2"
| "sig_length TWO_UNDER_TWO = 2"
| "sig_length THREE_OVER_ONE_FIVE = 3"
| "sig_length THREE_UNDER_ONE_FIVE = 3"
| "sig_length ONE_OVER_THREE = 1"
| "sig_length ONE_UNDER_THREE = 1"

text \<open>The field \<open>index\<close> of a catalogue entry.\<close>

fun sig_index :: "signal \<Rightarrow> nat" where
  "sig_index EIGHT_OVER_MEAN = 4"
| "sig_index EIGHT_UNDER_MEAN = 3"
| "sig_index TWO_OVER_TWO = 6"
| "sig_index TWO_UNDER_TWO = 1"
| "sig_index THREE_OVER_ONE_FIVE = 5"
| "sig_index THREE_UNDER_ONE_FIVE = 2"
| "sig_index ONE_OVER_THREE = 7"
| "sig_index ONE_UNDER_THREE = 0"

text \<open>
  The field \<open>rule\<close> of a catalogue entry, \<open>function(v, mean, sd)\<close>. An undefined
  mean or standard deviation makes the right-hand side \<open>NaN\<close> and the comparison false;
  the two eight-point rules do not read \<open>sd\<close>.
\<close>

fun rule :: "signal \<Rightarrow> real \<Rightarrow> jsnum \<Rightarrow> jsnum \<Rightarrow> bool" where
  "rule EIGHT_OVER_MEAN v (Some m) s = (v > m)"
| "rule EIGHT_UNDER_MEAN v (Some m) s = (v < m)"
| "rule TWO_OVER_TWO v (Some m) (Some s) = (v > m + s * 2)"
| "rule TWO_UNDER_TWO v (Some m) (Some s) = (v < m - s * 2)"
| "rule THREE_OVER_ONE_FIVE v (Some m) (Some s) = (v > m + s * 1.5)"
| "rule THREE_UNDER_ONE_FIVE v (Some m) (Some s) = (v < m - s * 1.5)"
| "rule ONE_OVER_THREE v (Some m) (Some s) = (v > m + s * 3)"
| "rule ONE_UNDER_THREE v (Some m) (Some s) = (v < m - s * 3)"
| "rule _ v _ _ = False"

subsection \<open>Processes\<close>

text \<open>
  A process object: \<open>startIndex\<close>, \<open>endIndex\<close> and \<open>cap\<close> are set by
  \<open>createProcess\<close> (a cap of \<open>-1\<close> means no cap); \<open>mean\<close>, \<open>sd\<close> (here
  \<open>pmean\<close>, \<open>psd\<close>) and \<open>signals\<close> are set by \<open>calculateSignals\<close> and are
  undefined, respectively empty, before. The keys of \<open>signals\<close> are timestamps.
\<close>

record process =
  startIndex :: int
  endIndex :: int
  cap :: int
  pmean :: jsnum
  psd :: jsnum
  signals :: "int \<rightharpoonup> signal"

text \<open>The object \<open>{"mean" : _, "sd" : _}\<close> that \<open>summaryStatistics\<close> returns.\<close>

record stats =
  smean :: jsnum
  ssd :: jsnum

text \<open>
  The run tracker \<open>signalTracker\<close>: an object from rule ids to the list of timestamps
  of the current run; \<open>{}\<close> is the empty map.
\<close>

type_synonym tracker = "signal \<rightharpoonup> int list"

text \<open>
  The configured \<open>properties\<close> object, as \<open>configureProperties\<close> leaves it, restricted
  to the fields the segmentation reads. \<open>datesToExclude\<close> is an object used as a set of
  timestamps (\<open>d in datesToExclude\<close>).
\<close>

record properties =
  manualProcesses :: "int list"
  autoDetectProcess :: bool
  autoDetectUntil :: int
  datesToExclude :: "int set"

section \<open>Statistics\<close>

text \<open>
  Modelled from the spec: \<open>d3.mean\<close> and \<open>d3.deviation\<close> belong to the external d3
  library (loaded by \<open>index.html\<close>, not part of the sources). They are the arithmetic
  mean, undefined on an empty array, and the square root of the unbiased sample variance
  (denominator \<open>n - 1\<close>), undefined on fewer than two numbers.
\<close>

definition d3_mean :: "real list \<Rightarrow> jsnum" where
  "d3_mean xs = (if xs = [] then None else Some (sum_list xs / real (length xs)))"

definition d3_variance :: "real list \<Rightarrow> jsnum" where
  "d3_variance xs =
     (if length xs < 2 then None
      else Some (sum_list (map (\<lambda>x. (x - sum_list xs / real (length xs))\<^sup>2) xs)
                 / real (length xs - 1)))"

definition d3_deviation :: "real list \<Rightarrow> jsnum" where
  "d3_deviation xs = map_option sqrt (d3_variance xs)"

definition mean :: "point list \<Rightarrow> jsnum" where
  "mean data = d3_mean (map Count data)"

definition sd :: "point list \<Rightarrow> jsnum" where
  "sd data = d3_deviation (map Count data)"

text \<open>
  \<open>Array.prototype.slice(start, end)\<close>: a negative index counts from the end, and both
  are clamped to the array.
\<close>

definition slice :: "'a list \<Rightarrow> int \<Rightarrow> int \<Rightarrow> 'a list" where
  "slice xs start end' =
     (let n = int (length xs);
          k = (if start < 0 then max (n + start) 0 else min start n);
          f = (if end' < 0 then max (n + end') 0 else min end' n)
      in take (nat (f - k)) (drop (nat k) xs))"

definition isEmpty :: "int set \<Rightarrow> bool" where
  "isEmpty obj = (obj = {})"

text \<open>
  The loop of \<open>summaryStatistics\<close> that runs when there are excluded dates:
  \<open>for (let i = start; i < end; i++)\<close>. Reading \<open>data[i]\<close> outside the array gives
  \<open>undefined\<close>, whose property access raises a TypeError. The statistics are
  recomputed in every iteration; with no iteration they stay as initialised.
\<close>

function summaryLoop ::
  "point list \<Rightarrow> int set \<Rightarrow> int \<Rightarrow> int \<Rightarrow> point list \<Rightarrow> stats \<Rightarrow> error + stats" where
  "summaryLoop data excl i end' tmpData st =
     (if i < end' then
        (if i < 0 \<or> int (length data) \<le> i then Inl TypeError
         else
           (let tmpData' =
                  (if Date (data ! nat i) \<notin> excl then tmpData @ [data ! nat i] else tmpData)
            in summaryLoop data excl (i + 1) end' tmpData'
                 \<lparr>smean = mean tmpData', ssd = sd tmpData'\<rparr>))
      else Inr st)"
  by pat_completeness auto
termination
  by (relation "measure (\<lambda>(data, excl, i, end', tmpData, st). nat (end' - i))") auto

declare summaryLoop.simps [simp del]

definition summaryStatistics :: "point list \<Rightarrow> int set \<Rightarrow> int \<Rightarrow> int \<Rightarrow> error + stats" where
  "summaryStatistics data excl start end0 =
     (let end' = end0 + 1 in
      if isEmpty excl then
        Inr \<lparr>smean = mean (slice data start end'), ssd = sd (slice data start end')\<rparr>
      else summaryLoop data excl start end' [] \<lparr>smean = Some 0, ssd = Some 0\<rparr>)"

section \<open>Process creation\<close>

definition createProcess :: "process list \<Rightarrow> int \<Rightarrow> int \<Rightarrow> process list" where
  "createProcess processes index capv =
     (let endIndex0 = index + int (sig_length EIGHT_OVER_MEAN);
          endIndex1 = (if capv > -1 \<and> endIndex0 > capv then capv else endIndex0);
          ps = processes @
                 [\<lparr>startIndex = index, endIndex = endIndex1, cap = capv,
                   pmean = None, psd = None, signals = Map.empty\<rparr>]
      in if length ps > 1
         then ps[length ps - 2 := (ps ! (length ps - 2))\<lparr>endIndex := index - 1\<rparr>]
         else ps)"

section \<open>Signal detection\<close>

text \<open>
  \<open>incrementSignal\<close>: push the timestamp on the rule's run; when the rule is one of the
  two eight-point rules, the run has reached eight timestamps, detection is on and the
  timestamp is before \<open>autoDetectUntil\<close>, create a process at \<open>index\<close> and return true.
  \<open>signalTracker[signalType.id].push\<close> raises a TypeError when the key is absent.
\<close>

definition incrementSignal ::
  "tracker \<Rightarrow> signal \<Rightarrow> int \<Rightarrow> process list \<Rightarrow> int \<Rightarrow> bool \<Rightarrow> int
     \<Rightarrow> error + (tracker \<times> process list \<times> bool)" where
  "incrementSignal signalTracker signalType idt processes index autoDetect until =
     (case signalTracker signalType of
        None \<Rightarrow> Inl TypeError
      | Some run \<Rightarrow>
          (let signalTracker' = signalTracker(signalType \<mapsto> run @ [idt]) in
           if (signalType = EIGHT_OVER_MEAN \<or> signalType = EIGHT_UNDER_MEAN)
              \<and> length (run @ [idt]) = sig_length EIGHT_OVER_MEAN
              \<and> autoDetect \<and> idt < until
           then Inr (signalTracker', createProcess processes index (-1), True)
           else Inr (signalTracker', processes, False)))"

text \<open>
  \<open>addSignalToTracker\<close>: when the rule's run is at least as long as the rule requires,
  record the rule for every timestamp of the run that has no rule yet or has a rule with
  a strictly greater \<open>length\<close>.
\<close>

definition addSignalToTracker ::
  "(int \<rightharpoonup> signal) \<Rightarrow> tracker \<Rightarrow> signal \<Rightarrow> error + (int \<rightharpoonup> signal)" where
  "addSignalToTracker sigs signalTracker signalType =
     (case signalTracker signalType of
        None \<Rightarrow> Inl TypeError
      | Some run \<Rightarrow>
          if length run \<ge> sig_length signalType then
            Inr (fold (\<lambda>d sg.
                   (case sg d of
                      None \<Rightarrow> sg(d \<mapsto> signalType)
                    | Some r \<Rightarrow>
                        if sig_length signalType < sig_length r then sg(d \<mapsto> signalType)
                        else sg)) run sigs)
          else Inr sigs)"

definition clearSignal ::
  "(int \<rightharpoonup> signal) \<Rightarrow> tracker \<Rightarrow> signal \<Rightarrow> error + ((int \<rightharpoonup> signal) \<times> tracker)" where
  "clearSignal sigs signalTracker signalType =
     (case addSignalToTracker sigs signalTracker signalType of
        Inl e \<Rightarrow> Inl e
      | Inr sigs' \<Rightarrow> Inr (sigs', signalTracker(signalType \<mapsto> [])))"

text \<open>
  The body of \<open>calculateSignals\<close> keeps \<open>process = processes[pIndex]\<close>, a reference
  into the list that \<open>createProcess\<close> may also write through; the model keeps the list
  and the index and reads and writes \<open>processes ! pIndex\<close>.

  \<open>rulesLoop\<close> is the inner loop \<open>for (let i in SignalEnum)\<close> for one point \<open>d = data[j]\<close>;
  it stops at the first rule that creates a process.
\<close>

fun rulesLoop ::
  "signal list \<Rightarrow> point \<Rightarrow> nat \<Rightarrow> int \<Rightarrow> bool \<Rightarrow> int \<Rightarrow> process list \<times> tracker
     \<Rightarrow> error + (process list \<times> tracker \<times> bool)" where
  "rulesLoop [] d pIndex j autoDetect until (ps, tr) = Inr (ps, tr, False)"
| "rulesLoop (sg # rest) d pIndex j autoDetect until (ps, tr) =
     (if rule sg (Count d) (pmean (ps ! pIndex)) (psd (ps ! pIndex)) then
        (case incrementSignal tr sg (Date d) ps j
                (if j = startIndex (ps ! pIndex) then False else autoDetect) until of
           Inl e \<Rightarrow> Inl e
         | Inr (tr', ps', processFound) \<Rightarrow>
             if processFound then Inr (ps', tr', True)
             else rulesLoop rest d pIndex j autoDetect until (ps', tr'))
      else
        (case clearSignal (signals (ps ! pIndex)) tr sg of
           Inl e \<Rightarrow> Inl e
         | Inr (sigs', tr') \<Rightarrow>
             rulesLoop rest d pIndex j autoDetect until
               (ps[pIndex := (ps ! pIndex)\<lparr>signals := sigs'\<rparr>], tr')))"

text \<open>The bounds of a process: what the partition of the series is about.\<close>

definition bounds :: "process \<Rightarrow> int \<times> int \<times> int" where
  "bounds p = (startIndex p, endIndex p, cap p)"

lemma incrementSignal_not_found:
  "incrementSignal tr sg idt ps j a until = Inr (tr', ps', False) \<Longrightarrow> ps' = ps"
  by (auto simp: incrementSignal_def Let_def split: option.splits if_splits)

lemma rulesLoop_not_found:
  "rulesLoop sgs d pIndex j a until (ps, tr) = Inr (ps', tr', False)
     \<Longrightarrow> \<exists>sigs'. ps' = ps[pIndex := (ps ! pIndex)\<lparr>signals := sigs'\<rparr>]"
proof (induction sgs arbitrary: ps tr)
  case Nil
  then have "ps' = ps[pIndex := (ps ! pIndex)\<lparr>signals := signals (ps ! pIndex)\<rparr>]"
    by simp
  then show ?case by blast
next
  case (Cons sg rest)
  show ?case
  proof (cases "rule sg (Count d) (pmean (ps ! pIndex)) (psd (ps ! pIndex))")
    case True
    with Cons.prems obtain tr1 ps1 where
      inc: "incrementSignal tr sg (Date d) ps j
              (if j = startIndex (ps ! pIndex) then False else a) until = Inr (tr1, ps1, False)"
      and rest: "rulesLoop rest d pIndex j a until (ps1, tr1) = Inr (ps', tr', False)"
      by (auto split: sum.splits if_splits)
    from inc have "ps1 = ps" by (rule incrementSignal_not_found)
    with Cons.IH [OF rest] show ?thesis by simp
  next
    case False
    with Cons.prems obtain sigs1 tr1 where
      rest: "rulesLoop rest d pIndex j a until
               (ps[pIndex := (ps ! pIndex)\<lparr>signals := sigs1\<rparr>], tr1) = Inr (ps', tr', False)"
      by (auto split: sum.splits)
    from Cons.IH [OF rest] obtain sigs' where
      "ps' = (ps[pIndex := (ps ! pIndex)\<lparr>signals := sigs1\<rparr>])
               [pIndex := ((ps[pIndex := (ps ! pIndex)\<lparr>signals := sigs1\<rparr>]) ! pIndex)\<lparr>signals := sigs'\<rparr>]"
      by blast
    then have "ps' = ps[pIndex := (ps ! pIndex)\<lparr>signals := sigs'\<rparr>]"
      by (cases "pIndex < length ps") (simp_all add: list_update_beyond)
    then show ?thesis by blast
  qed
qed

lemma rulesLoop_not_found_startIndex:
  assumes "rulesLoop sgs d pIndex j a until (ps, tr) = Inr (ps', tr', False)"
  shows "startIndex (ps' ! pIndex) = startIndex (ps ! pIndex)"
proof -
  from rulesLoop_not_found [OF assms] obtain sigs' where
    "ps' = ps[pIndex := (ps ! pIndex)\<lparr>signals := sigs'\<rparr>]" by blast
  then show ?thesis by (cases "pIndex < length ps") (simp_all add: list_update_beyond)
qed

text \<open>
  The scan \<open>for (var j = process.endIndex; j >= process.startIndex; --j)\<close>, entered at
  \<open>j\<close>. Excluded points are skipped; the scan stops when a process was created.
\<close>

function pointsLoop ::
  "point list \<Rightarrow> int set \<Rightarrow> nat \<Rightarrow> bool \<Rightarrow> int \<Rightarrow> int \<Rightarrow> process list \<times> tracker
     \<Rightarrow> error + (process list \<times> tracker \<times> bool)" where
  "pointsLoop data excl pIndex autoDetect until j (ps, tr) =
     (if j \<ge> startIndex (ps ! pIndex) then
        (if j < 0 \<or> int (length data) \<le> j then Inl TypeError
         else if Date (data ! nat j) \<notin> excl then
           (case rulesLoop SignalEnum (data ! nat j) pIndex j autoDetect until (ps, tr) of
              Inl e \<Rightarrow> Inl e
            | Inr (ps', tr', processFound) \<Rightarrow>
                if processFound then Inr (ps', tr', True)
                else pointsLoop data excl pIndex autoDetect until (j - 1) (ps', tr'))
         else pointsLoop data excl pIndex autoDetect until (j - 1) (ps, tr))
      else Inr (ps, tr, False))"
  by pat_completeness auto
termination
proof (relation "measure (\<lambda>(data, excl, pIndex, a, until, j, ps, tr).
                   nat (j - startIndex (ps ! pIndex) + 1))", goal_cases)
  case 1
  show ?case by simp
next
  case (2 data excl pIndex a until j ps tr x2 ps' y tr' found)
  then have "rulesLoop SignalEnum (data ! nat j) pIndex j a until (ps, tr) = Inr (ps', tr', False)"
    by auto
  then have "startIndex (ps' ! pIndex) = startIndex (ps ! pIndex)"
    by (rule rulesLoop_not_found_startIndex)
  with 2 show ?case by simp
next
  case 3
  then show ?case by simp
qed

declare pointsLoop.simps [simp del]

lemma map_startIndex_update:
  "startIndex q = startIndex (ps ! i) \<Longrightarrow> map startIndex (ps[i := q]) = map startIndex ps"
  by (cases "i < length ps") (simp_all add: map_update list_update_same_conv list_update_beyond)


lemma incrementSignal_found:
  "incrementSignal tr sg idt ps j a until = Inr (tr', ps', True)
     \<Longrightarrow> a \<and> idt < until \<and> ps' = createProcess ps j (-1)
         \<and> (sg = EIGHT_OVER_MEAN \<or> sg = EIGHT_UNDER_MEAN)
         \<and> (\<exists>run. tr sg = Some run \<and> length run + 1 = 8)"
  by (auto simp: incrementSignal_def Let_def split: option.splits if_splits)

lemma rulesLoop_found:
  "rulesLoop sgs d pIndex j a until (ps, tr) = Inr (ps', tr', True)
     \<Longrightarrow> a \<and> j \<noteq> startIndex (ps ! pIndex) \<and> Date d < until
         \<and> (\<exists>sigs'. ps' = createProcess (ps[pIndex := (ps ! pIndex)\<lparr>signals := sigs'\<rparr>]) j (-1))"
proof (induction sgs arbitrary: ps tr)
  case Nil
  then show ?case by simp
next
  case (Cons sg rest)
  show ?case
  proof (cases "rule sg (Count d) (pmean (ps ! pIndex)) (psd (ps ! pIndex))")
    case True
    with Cons.prems obtain tr1 ps1 f1 where
      inc: "incrementSignal tr sg (Date d) ps j
              (if j = startIndex (ps ! pIndex) then False else a) until = Inr (tr1, ps1, f1)"
      and rest: "if f1 then ps' = ps1 \<and> tr' = tr1
                 else rulesLoop rest d pIndex j a until (ps1, tr1) = Inr (ps', tr', True)"
      by (auto split: sum.splits if_splits)
    show ?thesis
    proof (cases f1)
      case True
      with inc have "incrementSignal tr sg (Date d) ps j
              (if j = startIndex (ps ! pIndex) then False else a) until = Inr (tr1, ps1, True)"
        by simp
      from incrementSignal_found [OF this] True rest
      have *: "j \<noteq> startIndex (ps ! pIndex)" "a"
          "Date d < until" "ps' = createProcess ps j (-1)"
        by (auto split: if_splits)
      have "ps = ps[pIndex := (ps ! pIndex)\<lparr>signals := signals (ps ! pIndex)\<rparr>]"
        by simp
      with *(4) have "\<exists>sigs'. ps' = createProcess (ps[pIndex := (ps ! pIndex)\<lparr>signals := sigs'\<rparr>]) j (-1)"
        by metis
      with * show ?thesis by simp
    next
      case False
      with inc have "incrementSignal tr sg (Date d) ps j
              (if j = startIndex (ps ! pIndex) then False else a) until = Inr (tr1, ps1, False)"
        by simp
      then have "ps1 = ps" by (rule incrementSignal_not_found)
      with False rest Cons.IH [of ps1 tr1] show ?thesis by simp
    qed
  next
    case False
    with Cons.prems obtain sigs1 tr1 where
      rest: "rulesLoop rest d pIndex j a until
               (ps[pIndex := (ps ! pIndex)\<lparr>signals := sigs1\<rparr>], tr1) = Inr (ps', tr', True)"
      by (auto split: sum.splits)
    let ?ps1 = "ps[pIndex := (ps ! pIndex)\<lparr>signals := sigs1\<rparr>]"
    from Cons.IH [OF rest] obtain sigs' where
      a: "a" "j \<noteq> startIndex (?ps1 ! pIndex)" "Date d < until"
      and ps': "ps' = createProcess (?ps1[pIndex := (?ps1 ! pIndex)\<lparr>signals := sigs'\<rparr>]) j (-1)"
      by blast
    have 1: "startIndex (?ps1 ! pIndex) = startIndex (ps ! pIndex)"
      by (cases "pIndex < length ps") (simp_all add: list_update_beyond)
    have 2: "?ps1[pIndex := (?ps1 ! pIndex)\<lparr>signals := sigs'\<rparr>]
               = ps[pIndex := (ps ! pIndex)\<lparr>signals := sigs'\<rparr>]"
      by (cases "pIndex < length ps") (simp_all add: list_update_beyond)
    from a ps' 1 2 show ?thesis by auto
  qed
qed

lemma pointsLoop_not_found:
  "pointsLoop data excl pIndex a until j (ps, tr) = Inr (ps', tr', False)
     \<Longrightarrow> \<exists>sigs'. ps' = ps[pIndex := (ps ! pIndex)\<lparr>signals := sigs'\<rparr>]"
proof (induction data excl pIndex a until j "(ps, tr)" arbitrary: ps tr rule: pointsLoop.induct)
  case (1 data excl pIndex a until j ps tr)
  show ?case
  proof (cases "j \<ge> startIndex (ps ! pIndex)")
    case False
    with "1.prems" have "ps' = ps[pIndex := (ps ! pIndex)\<lparr>signals := signals (ps ! pIndex)\<rparr>]"
      by (simp add: pointsLoop.simps)
    then show ?thesis by blast
  next
    case True
    note prems = "1.prems" [unfolded pointsLoop.simps [of data excl pIndex a until j ps tr]]
    from True prems have inr: "\<not> (j < 0 \<or> int (length data) \<le> j)"
      by (auto split: if_splits)
    show ?thesis
    proof (cases "Date (data ! nat j) \<notin> excl")
      case False
      with True inr prems "1.hyps"(2) show ?thesis by simp
    next
      case ex: True
      with True inr prems obtain ps1 tr1 where
        r: "rulesLoop SignalEnum (data ! nat j) pIndex j a until (ps, tr) = Inr (ps1, tr1, False)"
        and rest: "pointsLoop data excl pIndex a until (j - 1) (ps1, tr1) = Inr (ps', tr', False)"
        by (auto split: sum.splits if_splits)
      from rulesLoop_not_found [OF r] obtain sigs1 where
        ps1: "ps1 = ps[pIndex := (ps ! pIndex)\<lparr>signals := sigs1\<rparr>]" by blast
      from "1.hyps"(1) [OF True inr ex r refl refl _ rest] obtain sigs' where
        "ps' = ps1[pIndex := (ps1 ! pIndex)\<lparr>signals := sigs'\<rparr>]" by auto
      with ps1 have "ps' = ps[pIndex := (ps ! pIndex)\<lparr>signals := sigs'\<rparr>]"
        by (cases "pIndex < length ps") (simp_all add: list_update_beyond)
      then show ?thesis by blast
    qed
  qed
qed

lemma upd_signals_twice:
  "(ps[i := (ps ! i)\<lparr>signals := s1\<rparr>])[i := ((ps[i := (ps ! i)\<lparr>signals := s1\<rparr>]) ! i)\<lparr>signals := s2\<rparr>]
     = ps[i := (ps ! i)\<lparr>signals := s2\<rparr>]"
  by (cases "i < length ps") (simp_all add: list_update_beyond)

lemma upd_signals_nth:
  "startIndex ((ps[i := (ps ! i)\<lparr>signals := s1\<rparr>]) ! i) = startIndex (ps ! i)"
  "endIndex ((ps[i := (ps ! i)\<lparr>signals := s1\<rparr>]) ! i) = endIndex (ps ! i)"
  "cap ((ps[i := (ps ! i)\<lparr>signals := s1\<rparr>]) ! i) = cap (ps ! i)"
  "pmean ((ps[i := (ps ! i)\<lparr>signals := s1\<rparr>]) ! i) = pmean (ps ! i)"
  "psd ((ps[i := (ps ! i)\<lparr>signals := s1\<rparr>]) ! i) = psd (ps ! i)"
  by (cases "i < length ps"; simp add: list_update_beyond)+

lemma pointsLoop_found:
  "pointsLoop data excl pIndex a until j0 (ps, tr) = Inr (ps', tr', True)
     \<Longrightarrow> a \<and> (\<exists>j sigs'. startIndex (ps ! pIndex) < j \<and> j \<le> j0 \<and> 0 \<le> j
           \<and> j < int (length data)
           \<and> Date (data ! nat j) \<notin> excl \<and> Date (data ! nat j) < until
           \<and> ps' = createProcess (ps[pIndex := (ps ! pIndex)\<lparr>signals := sigs'\<rparr>]) j (-1))"
proof (induction data excl pIndex a until j0 "(ps, tr)" arbitrary: ps tr rule: pointsLoop.induct)
  case (1 data excl pIndex a until j ps tr)
  note prems = "1.prems" [unfolded pointsLoop.simps [of data excl pIndex a until j ps tr]]
  from prems have ge: "j \<ge> startIndex (ps ! pIndex)"
    by (auto split: if_splits)
  with prems have inr: "\<not> (j < 0 \<or> int (length data) \<le> j)"
    by (auto split: if_splits)
  show ?case
  proof (cases "Date (data ! nat j) \<notin> excl")
    case False
    with ge inr prems have "pointsLoop data excl pIndex a until (j - 1) (ps, tr) = Inr (ps', tr', True)"
      by simp
    from "1.hyps"(2) [OF ge inr False this] show ?thesis
      by (elim conjE exE) (intro conjI exI [where x = "_ :: int"] exI [where x = "_ :: int \<rightharpoonup> signal"]; (assumption | simp))
  next
    case ex: True
    with ge inr prems obtain ps1 tr1 f1 where
      r: "rulesLoop SignalEnum (data ! nat j) pIndex j a until (ps, tr) = Inr (ps1, tr1, f1)"
      and rest: "if f1 then ps' = ps1 \<and> tr' = tr1
                 else pointsLoop data excl pIndex a until (j - 1) (ps1, tr1) = Inr (ps', tr', True)"
      by (auto split: sum.splits if_splits)
    show ?thesis
    proof (cases f1)
      case True
      with r rest have "rulesLoop SignalEnum (data ! nat j) pIndex j a until (ps, tr) = Inr (ps', tr', True)"
        by simp
      from rulesLoop_found [OF this] obtain sigs' where
        "a" "j \<noteq> startIndex (ps ! pIndex)" "Date (data ! nat j) < until"
        "ps' = createProcess (ps[pIndex := (ps ! pIndex)\<lparr>signals := sigs'\<rparr>]) j (-1)"
        by blast
      with ge inr ex show ?thesis
        by (intro conjI exI [where x = j] exI [where x = sigs']) auto
    next
      case False
      with r have r': "rulesLoop SignalEnum (data ! nat j) pIndex j a until (ps, tr) = Inr (ps1, tr1, False)"
        by simp
      from rulesLoop_not_found [OF r'] obtain sigs1 where
        ps1: "ps1 = ps[pIndex := (ps ! pIndex)\<lparr>signals := sigs1\<rparr>]" by blast
      from False rest have
        "pointsLoop data excl pIndex a until (j - 1) (ps1, tr1) = Inr (ps', tr', True)" by simp
      from "1.hyps"(1) [OF ge inr ex r' refl refl _ this] obtain j' sigs' where
        a: "a" and j': "startIndex (ps1 ! pIndex) < j'" "j' \<le> j - 1" "0 \<le> j'"
          "j' < int (length data)" "Date (data ! nat j') \<notin> excl" "Date (data ! nat j') < until"
        and ps': "ps' = createProcess (ps1[pIndex := (ps1 ! pIndex)\<lparr>signals := sigs'\<rparr>]) j' (-1)"
        by auto
      from ps1 j'(1) have "startIndex (ps ! pIndex) < j'"
        by (simp add: upd_signals_nth)
      moreover from ps1 ps' have
        "ps' = createProcess (ps[pIndex := (ps ! pIndex)\<lparr>signals := sigs'\<rparr>]) j' (-1)"
        using upd_signals_twice [of ps pIndex sigs1 sigs'] by simp
      ultimately show ?thesis using a j'
        by (intro conjI exI [where x = j'] exI [where x = sigs']) auto
    qed
  qed
qed

text \<open>
  The tracker after \<open>for (let i in SignalEnum) signalTracker[SignalEnum[i].id] = []\<close>.
\<close>

definition initTracker :: tracker where
  "initTracker = fold (\<lambda>sg t. t(sg \<mapsto> [])) SignalEnum Map.empty"

text \<open>
  The \<open>while\<close> loop of \<open>calculateSignals\<close>; its state is the list of processes, the
  tracker and \<open>processFound\<close>. \<open>process\<close> is \<open>processes[pIndex]\<close>, checked to exist
  when \<open>calculateSignals\<close> reads it (an absent one raises the TypeError of its first
  write).
\<close>

function whileLoop ::
  "point list \<Rightarrow> int set \<Rightarrow> nat \<Rightarrow> bool \<Rightarrow> int \<Rightarrow> process list \<times> tracker \<times> bool
     \<Rightarrow> error + (process list \<times> tracker \<times> bool)" where
  "whileLoop data excl pIndex autoDetect until (ps, tr, processFound) =
     (if length ps \<le> pIndex then Inl TypeError
      else if \<not> processFound \<and> endIndex (ps ! pIndex) < int (length data) - 1
              \<and> (cap (ps ! pIndex) = -1 \<or> endIndex (ps ! pIndex) < cap (ps ! pIndex)) then
        (let process1 = (ps ! pIndex)\<lparr>endIndex := endIndex (ps ! pIndex) + 1, signals := Map.empty\<rparr>
         in case summaryStatistics data excl (startIndex process1) (endIndex process1) of
              Inl e \<Rightarrow> Inl e
            | Inr st \<Rightarrow>
                (case pointsLoop data excl pIndex autoDetect until (endIndex process1)
                        (ps[pIndex := process1\<lparr>pmean := smean st, psd := ssd st\<rparr>], initTracker) of
                   Inl e \<Rightarrow> Inl e
                 | Inr (ps', tr', found) \<Rightarrow>
                     if found then
                       (case summaryStatistics data excl
                               (startIndex (ps' ! pIndex)) (endIndex (ps' ! pIndex)) of
                          Inl e \<Rightarrow> Inl e
                        | Inr st' \<Rightarrow>
                            whileLoop data excl pIndex autoDetect until
                              (ps'[pIndex := (ps' ! pIndex)\<lparr>pmean := smean st', psd := ssd st'\<rparr>],
                               tr', True))
                     else whileLoop data excl pIndex autoDetect until (ps', tr', False)))
      else Inr (ps, tr, processFound))"
  by pat_completeness auto
termination
proof (relation "measure (\<lambda>(data, excl, pIndex, a, until, ps, tr, found).
                   if found then 0 else nat (int (length data) - endIndex (ps ! pIndex)))",
       goal_cases)
  case 1
  show ?case by simp
next
  case 2
  then show ?case by auto
next
  case (3 data excl pIndex a until ps tr found process1 st x2 ps' y tr' found')
  then have "pointsLoop data excl pIndex a until (endIndex process1)
      (ps[pIndex := process1\<lparr>pmean := smean st, psd := ssd st\<rparr>], initTracker)
        = Inr (ps', tr', False)"
    by auto
  from pointsLoop_not_found [OF this] obtain sigs' where
    "ps' = (ps[pIndex := process1\<lparr>pmean := smean st, psd := ssd st\<rparr>])
       [pIndex := ((ps[pIndex := process1\<lparr>pmean := smean st, psd := ssd st\<rparr>]) ! pIndex)\<lparr>signals := sigs'\<rparr>]"
    by blast
  with 3 have "endIndex (ps' ! pIndex) = endIndex (ps ! pIndex) + 1"
    by simp
  with 3 show ?case by auto
qed

declare whileLoop.simps [simp del]

text \<open>
  The same two updates on the list of bounds: \<open>setEnd\<close> writes the end index of one
  process, \<open>newProcess\<close> is \<open>createProcess\<close> seen through \<open>bounds\<close>.
\<close>

definition setEnd :: "(int \<times> int \<times> int) list \<Rightarrow> nat \<Rightarrow> int \<Rightarrow> (int \<times> int \<times> int) list" where
  "setEnd bs i e = bs[i := (fst (bs ! i), e, snd (snd (bs ! i)))]"

definition newProcess :: "(int \<times> int \<times> int) list \<Rightarrow> int \<Rightarrow> int \<Rightarrow> (int \<times> int \<times> int) list" where
  "newProcess bs j c =
     (let bs' = bs @ [(j, if c > -1 \<and> j + 8 > c then c else j + 8, c)]
      in if length bs' > 1 then setEnd bs' (length bs' - 2) (j - 1) else bs')"

lemma bounds_createProcess: "map bounds (createProcess ps j c) = newProcess (map bounds ps) j c"
  by (cases "ps = []")
     (auto simp: createProcess_def newProcess_def setEnd_def Let_def map_update bounds_def nth_append
        nth_map)

lemma bounds_update_setEnd:
  "i < length ps \<Longrightarrow> startIndex q = startIndex (ps ! i) \<Longrightarrow> cap q = cap (ps ! i)
     \<Longrightarrow> map bounds (ps[i := q]) = setEnd (map bounds ps) i (endIndex q)"
  by (simp add: setEnd_def map_update bounds_def)

lemma bounds_update_same:
  "bounds q = bounds (ps ! i) \<Longrightarrow> map bounds (ps[i := q]) = map bounds ps"
  by (cases "i < length ps") (simp_all add: map_update list_update_same_conv list_update_beyond)

lemma setEnd_setEnd: "setEnd (setEnd bs i e) i e' = setEnd bs i e'"
  by (cases "i < length bs") (simp_all add: setEnd_def list_update_beyond)

lemma length_setEnd [simp]: "length (setEnd bs i e) = length bs"
  by (simp add: setEnd_def)

lemma length_newProcess [simp]: "length (newProcess bs j c) = Suc (length bs)"
  by (simp add: newProcess_def Let_def)


lemma whileLoop_True:
  "whileLoop data excl pIndex a until (ps, tr, True)
     = (if length ps \<le> pIndex then Inl TypeError else Inr (ps, tr, True))"
  by (simp add: whileLoop.simps)

text \<open>The condition of the \<open>while\<close> loop, apart from \<open>!processFound\<close>.\<close>

definition guard :: "point list \<Rightarrow> process \<Rightarrow> bool" where
  "guard data p \<longleftrightarrow>
     endIndex p < int (length data) - 1 \<and> (cap p = -1 \<or> endIndex p < cap p)"

lemma whileLoop_exit:
  "pIndex < length ps \<Longrightarrow> \<not> guard data (ps ! pIndex)
     \<Longrightarrow> whileLoop data excl pIndex a until (ps, tr, False) = Inr (ps, tr, False)"
  by (subst whileLoop.simps) (auto simp: guard_def)

lemma whileLoop_range:
  "whileLoop data excl pIndex a until (ps, tr, f) = Inr r \<Longrightarrow> pIndex < length ps"
  by (subst (asm) whileLoop.simps) (simp split: if_splits)

text \<open>The process after the first statements of the loop body and the new statistics.\<close>

definition body_process :: "process \<Rightarrow> stats \<Rightarrow> process" where
  "body_process p st =
     p\<lparr>endIndex := endIndex p + 1, signals := Map.empty, pmean := smean st, psd := ssd st\<rparr>"

lemma whileLoop_step:
  assumes "guard data (ps ! pIndex)"
    and "whileLoop data excl pIndex a until (ps, tr, False) = Inr r"
  obtains
    (found) st ps1 tr1 st' where
      "summaryStatistics data excl (startIndex (ps ! pIndex)) (endIndex (ps ! pIndex) + 1) = Inr st"
      "pointsLoop data excl pIndex a until (endIndex (ps ! pIndex) + 1)
         (ps[pIndex := body_process (ps ! pIndex) st], initTracker) = Inr (ps1, tr1, True)"
      "summaryStatistics data excl (startIndex (ps1 ! pIndex)) (endIndex (ps1 ! pIndex)) = Inr st'"
      "r = (ps1[pIndex := (ps1 ! pIndex)\<lparr>pmean := smean st', psd := ssd st'\<rparr>], tr1, True)"
  | (continue) st ps1 tr1 where
      "summaryStatistics data excl (startIndex (ps ! pIndex)) (endIndex (ps ! pIndex) + 1) = Inr st"
      "pointsLoop data excl pIndex a until (endIndex (ps ! pIndex) + 1)
         (ps[pIndex := body_process (ps ! pIndex) st], initTracker) = Inr (ps1, tr1, False)"
      "whileLoop data excl pIndex a until (ps1, tr1, False) = Inr r"
proof -
  from assms(2) have len: "pIndex < length ps" by (rule whileLoop_range)
  note u = assms(2) [unfolded whileLoop.simps [of data excl pIndex a until ps tr False]]
  from u len assms(1) obtain st where
    st: "summaryStatistics data excl (startIndex (ps ! pIndex)) (endIndex (ps ! pIndex) + 1) = Inr st"
    by (auto simp: guard_def Let_def split: sum.splits)
  from u len assms(1) st obtain ps1 tr1 f1 where
    pl: "pointsLoop data excl pIndex a until (endIndex (ps ! pIndex) + 1)
         (ps[pIndex := body_process (ps ! pIndex) st], initTracker) = Inr (ps1, tr1, f1)"
    by (auto simp: guard_def Let_def body_process_def split: sum.splits)
  show thesis
  proof (cases f1)
    case False
    with u len assms(1) st pl
    have "whileLoop data excl pIndex a until (ps1, tr1, False) = Inr r"
      by (auto simp: guard_def Let_def body_process_def split: sum.splits)
    with st pl False show thesis by (auto intro: continue)
  next
    case True
    with u len assms(1) st pl obtain st' where
      st': "summaryStatistics data excl (startIndex (ps1 ! pIndex)) (endIndex (ps1 ! pIndex)) = Inr st'"
      and w: "whileLoop data excl pIndex a until
               (ps1[pIndex := (ps1 ! pIndex)\<lparr>pmean := smean st', psd := ssd st'\<rparr>], tr1, True) = Inr r"
      by (auto simp: guard_def Let_def body_process_def split: sum.splits)
    from w have "r = (ps1[pIndex := (ps1 ! pIndex)\<lparr>pmean := smean st', psd := ssd st'\<rparr>], tr1, True)"
      by (simp add: whileLoop_True split: if_splits)
    with st pl True st' show thesis by (auto intro: found)
  qed
qed


lemma setEnd_same: "i < length ps \<Longrightarrow> setEnd (map bounds ps) i (endIndex (ps ! i)) = map bounds ps"
  by (simp add: setEnd_def bounds_def list_update_same_conv)

lemma bounds_body:
  assumes "pIndex < length ps"
  shows "map bounds (ps[pIndex := (body_process (ps ! pIndex) st)\<lparr>signals := sg\<rparr>])
           = setEnd (map bounds ps) pIndex (endIndex (ps ! pIndex) + 1)"
  using assms by (simp add: setEnd_def map_update bounds_def body_process_def)

lemma whileLoop_bounds:
  assumes "whileLoop data excl pIndex a until (ps, tr, False) = Inr (ps', tr', f')"
  shows "if f' then
           a \<and> (\<exists>e j. endIndex (ps ! pIndex) < e \<and> e < int (length data)
                 \<and> (cap (ps ! pIndex) = -1 \<or> e \<le> cap (ps ! pIndex))
                 \<and> startIndex (ps ! pIndex) < j \<and> j \<le> e \<and> 0 \<le> j
                 \<and> Date (data ! nat j) \<notin> excl \<and> Date (data ! nat j) < until
                 \<and> map bounds ps' = newProcess (setEnd (map bounds ps) pIndex e) j (-1))
         else
           (\<exists>e. endIndex (ps ! pIndex) \<le> e
              \<and> \<not> (e < int (length data) - 1 \<and> (cap (ps ! pIndex) = -1 \<or> e < cap (ps ! pIndex)))
              \<and> (e = endIndex (ps ! pIndex)
                  \<or> e < int (length data) \<and> (cap (ps ! pIndex) = -1 \<or> e \<le> cap (ps ! pIndex)))
              \<and> map bounds ps' = setEnd (map bounds ps) pIndex e)"
  using assms
proof (induction "nat (int (length data) - endIndex (ps ! pIndex))" arbitrary: ps tr rule: less_induct)
  case less
  from less.prems have len: "pIndex < length ps" by (rule whileLoop_range)
  show ?case
  proof (cases "guard data (ps ! pIndex)")
    case False
    with len less.prems have "ps' = ps" "\<not> f'"
      by (simp_all add: whileLoop_exit)
    with False len show ?thesis
      by (auto simp: guard_def setEnd_same intro!: exI [where x = "endIndex (ps ! pIndex)"])
  next
    case True
    let ?e = "endIndex (ps ! pIndex) + 1"
    from True less.prems show ?thesis
    proof (cases rule: whileLoop_step)
      case (found st ps1 tr1 st')
      let ?ps2 = "ps[pIndex := body_process (ps ! pIndex) st]"
      from pointsLoop_found [OF found(2)] obtain j sigs' where
        a: "a" and j: "startIndex (?ps2 ! pIndex) < j" "j \<le> ?e" "0 \<le> j" "j < int (length data)"
          "Date (data ! nat j) \<notin> excl" "Date (data ! nat j) < until"
        and ps1: "ps1 = createProcess (?ps2[pIndex := (?ps2 ! pIndex)\<lparr>signals := sigs'\<rparr>]) j (-1)"
        by blast
      from len have b2: "map bounds (?ps2[pIndex := (?ps2 ! pIndex)\<lparr>signals := sigs'\<rparr>])
                 = setEnd (map bounds ps) pIndex ?e"
        using bounds_body [OF len, where st = st and sg = sigs'] by simp
      from found(4) have "map bounds ps' = map bounds ps1" "f'"
        by (simp_all add: bounds_update_same bounds_def)
      with ps1 b2 have "map bounds ps' = newProcess (setEnd (map bounds ps) pIndex ?e) j (-1)"
        by (simp add: bounds_createProcess)
      moreover from j(1) len have "startIndex (ps ! pIndex) < j"
        by (simp add: body_process_def)
      moreover from True have "?e < int (length data)" "cap (ps ! pIndex) = -1 \<or> ?e \<le> cap (ps ! pIndex)"
        by (auto simp: guard_def)
      ultimately have "\<exists>e j. endIndex (ps ! pIndex) < e \<and> e < int (length data)
                 \<and> (cap (ps ! pIndex) = -1 \<or> e \<le> cap (ps ! pIndex))
                 \<and> startIndex (ps ! pIndex) < j \<and> j \<le> e \<and> 0 \<le> j
                 \<and> Date (data ! nat j) \<notin> excl \<and> Date (data ! nat j) < until
                 \<and> map bounds ps' = newProcess (setEnd (map bounds ps) pIndex e) j (-1)"
        using j by (intro exI [of _ ?e] exI [of _ j]) simp
      with a \<open>f'\<close> show ?thesis by simp
    next
      case (continue st ps1 tr1)
      let ?ps2 = "ps[pIndex := body_process (ps ! pIndex) st]"
      from pointsLoop_not_found [OF continue(2)] obtain sigs' where
        ps1: "ps1 = ?ps2[pIndex := (?ps2 ! pIndex)\<lparr>signals := sigs'\<rparr>]" by blast
      with len have b1: "map bounds ps1 = setEnd (map bounds ps) pIndex ?e"
        using bounds_body [OF len, where st = st and sg = sigs'] by simp
      from ps1 len have p1: "startIndex (ps1 ! pIndex) = startIndex (ps ! pIndex)"
        "cap (ps1 ! pIndex) = cap (ps ! pIndex)" "endIndex (ps1 ! pIndex) = ?e"
        by (simp_all add: body_process_def)
      from True p1 have "nat (int (length data) - endIndex (ps1 ! pIndex))
          < nat (int (length data) - endIndex (ps ! pIndex))"
        by (auto simp: guard_def)
      note IH = less.hyps [OF this continue(3)]
      show ?thesis
      proof (cases f')
        case f': True
        with IH obtain e j where a: "a" and
          e: "endIndex (ps1 ! pIndex) < e" "e < int (length data)"
            "cap (ps1 ! pIndex) = -1 \<or> e \<le> cap (ps1 ! pIndex)"
            "startIndex (ps1 ! pIndex) < j" "j \<le> e" "0 \<le> j"
            "Date (data ! nat j) \<notin> excl" "Date (data ! nat j) < until"
            "map bounds ps' = newProcess (setEnd (map bounds ps1) pIndex e) j (-1)"
          by auto
        from e have "\<exists>e j. endIndex (ps ! pIndex) < e \<and> e < int (length data)
                 \<and> (cap (ps ! pIndex) = -1 \<or> e \<le> cap (ps ! pIndex))
                 \<and> startIndex (ps ! pIndex) < j \<and> j \<le> e \<and> 0 \<le> j
                 \<and> Date (data ! nat j) \<notin> excl \<and> Date (data ! nat j) < until
                 \<and> map bounds ps' = newProcess (setEnd (map bounds ps) pIndex e) j (-1)"
          by (intro exI [of _ e] exI [of _ j]) (simp add: p1 b1 setEnd_setEnd)
        with a f' show ?thesis by simp
      next
        case f': False
        with IH obtain e where
          e: "endIndex (ps1 ! pIndex) \<le> e"
            "\<not> (e < int (length data) - 1 \<and> (cap (ps1 ! pIndex) = -1 \<or> e < cap (ps1 ! pIndex)))"
            "e = endIndex (ps1 ! pIndex)
               \<or> e < int (length data) \<and> (cap (ps1 ! pIndex) = -1 \<or> e \<le> cap (ps1 ! pIndex))"
            "map bounds ps' = setEnd (map bounds ps1) pIndex e"
          by auto
        from e True have "endIndex (ps ! pIndex) \<le> e
              \<and> \<not> (e < int (length data) - 1 \<and> (cap (ps ! pIndex) = -1 \<or> e < cap (ps ! pIndex)))
              \<and> (e = endIndex (ps ! pIndex)
                  \<or> e < int (length data) \<and> (cap (ps ! pIndex) = -1 \<or> e \<le> cap (ps ! pIndex)))
              \<and> map bounds ps' = setEnd (map bounds ps) pIndex e"
          by (simp add: p1 b1 setEnd_setEnd guard_def) linarith
        with f' show ?thesis by auto
      qed
    qed
  qed
qed

text \<open>
  The flush after the loop: \<open>for (let i in SignalEnum)\<close>, adding the run of every rule
  whose id is a key of the tracker.
\<close>

fun flushLoop :: "signal list \<Rightarrow> (int \<rightharpoonup> signal) \<Rightarrow> tracker \<Rightarrow> error + (int \<rightharpoonup> signal)" where
  "flushLoop [] sigs tr = Inr sigs"
| "flushLoop (v # rest) sigs tr =
     (if tr v \<noteq> None then
        (case addSignalToTracker sigs tr v of
           Inl e \<Rightarrow> Inl e
         | Inr sigs' \<Rightarrow> flushLoop rest sigs' tr)
      else flushLoop rest sigs tr)"

lemma map_fst_setEnd: "map fst (setEnd bs i e) = map fst bs"
  by (cases "i < length bs") (simp_all add: setEnd_def map_update list_update_same_conv list_update_beyond)

lemma map_fst_newProcess: "map fst (newProcess bs j c) = map fst bs @ [j]"
  by (simp add: newProcess_def Let_def map_fst_setEnd)

lemma startIndex_bounds: "map startIndex ps = map fst (map bounds ps)"
  by (simp add: bounds_def)

lemma whileLoop_starts:
  assumes "whileLoop data excl pIndex a until (ps, tr, False) = Inr (ps', tr', f')"
  shows "if f' then \<exists>j. startIndex (ps ! pIndex) < j \<and> j < int (length data)
                       \<and> map startIndex ps' = map startIndex ps @ [j]
         else map startIndex ps' = map startIndex ps"
  using whileLoop_bounds [OF assms]
  by (auto simp: startIndex_bounds map_fst_setEnd map_fst_newProcess simp del: map_map)

text \<open>
  \<open>calculateSignals\<close>: the recursion over the processes. The termination measure
  gives every process from \<open>pIndex\<close> on one unit plus the number of series indices from
  its start index on: a process created by the loop starts after the current one and
  inside the series.
\<close>

function calculateSignals ::
  "point list \<Rightarrow> process list \<Rightarrow> nat \<Rightarrow> bool \<Rightarrow> int \<Rightarrow> int set \<Rightarrow> error + process list" where
  "calculateSignals data processes pIndex autoDetect until excl =
     (if length processes \<le> pIndex then Inl TypeError
      else
        (let process0 = (processes ! pIndex)\<lparr>signals := Map.empty\<rparr>;
             process1 =
               (if endIndex process0 \<ge> int (length data)
                then process0\<lparr>endIndex := int (length data) - 2\<rparr>
                else process0\<lparr>endIndex := endIndex process0 - 1\<rparr>)
         in case whileLoop data excl pIndex autoDetect until
                   (processes[pIndex := process1], Map.empty, False) of
              Inl e \<Rightarrow> Inl e
            | Inr (ps', tr', processFound) \<Rightarrow>
                (case flushLoop SignalEnum (signals (ps' ! pIndex)) tr' of
                   Inl e \<Rightarrow> Inl e
                 | Inr sigs' \<Rightarrow>
                     (let ps'' = ps'[pIndex := (ps' ! pIndex)\<lparr>signals := sigs'\<rparr>] in
                      if processFound \<or> int pIndex < int (length ps'') - 1
                      then calculateSignals data ps'' (pIndex + 1) autoDetect until excl
                      else Inr ps''))))"
  by pat_completeness auto
termination
proof (relation "measure (\<lambda>(data, ps, pIndex, a, until, excl).
         sum_list (map (\<lambda>s. 1 + nat (int (length data) - s)) (drop pIndex (map startIndex ps))))",
       goal_cases)
  case 1
  show ?case by simp
next
  case (2 data ps pIndex a until excl process0 process1 x2 ps' y tr' found sigs' ps'')
  let ?w = "\<lambda>s. 1 + nat (int (length data) - s)"
  from 2 have len: "pIndex < length ps" by simp
  from 2 have w: "whileLoop data excl pIndex a until (ps[pIndex := process1], Map.empty, False)
      = Inr (ps', tr', found)" by simp
  from 2 len have st1: "map startIndex (ps[pIndex := process1]) = map startIndex ps"
    by (intro map_startIndex_update) auto
  from 2 len have s1: "startIndex (ps[pIndex := process1] ! pIndex) = startIndex (ps ! pIndex)"
    by auto
  from 2 have st2: "map startIndex ps'' = map startIndex ps'"
    by (simp add: map_startIndex_update)
  have d: "drop pIndex (map startIndex ps) = startIndex (ps ! pIndex) # drop (Suc pIndex) (map startIndex ps)"
    using len by (simp add: Cons_nth_drop_Suc [symmetric])
  show ?case
  proof (cases found)
    case True
    with whileLoop_starts [OF w] st1 s1 obtain j where
      j: "startIndex (ps ! pIndex) < j" "j < int (length data)"
        "map startIndex ps' = map startIndex ps @ [j]" by auto
    from j len have "?w j < ?w (startIndex (ps ! pIndex))" by simp
    with j(3) st2 d len show ?thesis by simp
  next
    case False
    with whileLoop_starts [OF w] st1 have "map startIndex ps' = map startIndex ps" by simp
    with st2 d show ?thesis by simp
  qed
qed

declare calculateSignals.simps [simp del]

section \<open>Entry points\<close>

text \<open>
  \<open>configureProperties\<close> fills absent keys with defaults (the record \<open>properties\<close>
  is the object with its keys present), sorts \<open>manualProcesses\<close> ascending and resets
  \<open>properties.processes\<close> to the empty list, from which both entry points start.
\<close>

definition configureProperties :: "properties \<Rightarrow> properties" where
  "configureProperties props = props\<lparr>manualProcesses := sort (manualProcesses props)\<rparr>"

text \<open>
  \<open>getSignals\<close>: one process from index 0 (\<open>cap\<close> has its default \<open>-1\<close>), then
  \<open>calculateSignals\<close> from the first process. The result is \<open>properties.processes\<close>.
\<close>

definition getSignals :: "point list \<Rightarrow> properties \<Rightarrow> error + process list" where
  "getSignals data props0 =
     (let props = configureProperties props0;
          processes = createProcess [] 0 (-1)
      in calculateSignals data processes 0 (autoDetectProcess props) (autoDetectUntil props)
           (datesToExclude props))"

text \<open>
  The loop of \<open>displayChart\<close> over the manual break points: a process from the previous
  break point capped before this one and, at the last break point, a process from it capped
  at the last index of the series.
\<close>

fun manualLoop :: "int list \<Rightarrow> nat \<Rightarrow> int \<Rightarrow> process list \<Rightarrow> process list" where
  "manualLoop [] n prev ps = ps"
| "manualLoop (p # rest) n prev ps =
     (let ps1 = createProcess ps prev (p - 1);
          ps2 = (if rest = [] then createProcess ps1 p (int n - 1) else ps1)
      in manualLoop rest n p ps2)"

text \<open>
  The segmentation that \<open>displayChart\<close> performs before it draws: the data are sorted by
  timestamp, the initial processes are built, and \<open>calculateSignals\<close> runs from the
  first process. The result is \<open>properties.processes\<close> as the drawing code receives it.
\<close>

definition displayChart :: "point list \<Rightarrow> properties \<Rightarrow> error + process list" where
  "displayChart data0 props0 =
     (let props = configureProperties props0;
          data = sort_key Date data0;
          processes =
            (if length (manualProcesses props) = 0 \<or> autoDetectProcess props
             then createProcess [] 0 (-1)
             else manualLoop (manualProcesses props) (length data) 0 [])
      in calculateSignals data processes 0 (autoDetectProcess props) (autoDetectUntil props)
           (datesToExclude props))"


section \<open>Properties of the loops\<close>

subsection \<open>No TypeError inside the series\<close>

text \<open>A tracker with a run for every rule, as the loop body initialises it.\<close>

definition tr_full :: "tracker \<Rightarrow> bool" where
  "tr_full tr \<longleftrightarrow> (\<forall>sg. tr sg \<noteq> None)"

lemma initTracker_Some: "initTracker sg = Some []"
  by (cases sg) (simp_all add: initTracker_def SignalEnum_def)

lemma tr_full_initTracker: "tr_full initTracker"
  by (simp add: tr_full_def initTracker_Some)

lemma incrementSignal_Inr:
  assumes "tr_full tr"
  shows "\<exists>tr' ps' f. incrementSignal tr sg idt ps j a until = Inr (tr', ps', f) \<and> tr_full tr'"
proof -
  from assms obtain run where "tr sg = Some run" by (auto simp: tr_full_def)
  with assms show ?thesis
    by (auto simp: incrementSignal_def Let_def tr_full_def)
qed

lemma clearSignal_Inr:
  assumes "tr_full tr"
  shows "\<exists>sigs' tr'. clearSignal sigs tr sg = Inr (sigs', tr') \<and> tr_full tr'"
proof -
  from assms obtain run where "tr sg = Some run" by (auto simp: tr_full_def)
  with assms show ?thesis
    by (auto simp: clearSignal_def addSignalToTracker_def tr_full_def)
qed

lemma rulesLoop_Inr:
  "tr_full tr \<Longrightarrow>
     \<exists>ps' tr' f. rulesLoop sgs d pIndex j a until (ps, tr) = Inr (ps', tr', f) \<and> tr_full tr'"
proof (induction sgs arbitrary: ps tr)
  case Nil
  then show ?case by auto
next
  case (Cons sg rest)
  show ?case
  proof (cases "rule sg (Count d) (pmean (ps ! pIndex)) (psd (ps ! pIndex))")
    case True
    from incrementSignal_Inr [OF Cons.prems] obtain tr1 ps1 f1 where
      inc: "incrementSignal tr sg (Date d) ps j
              (if j = startIndex (ps ! pIndex) then False else a) until = Inr (tr1, ps1, f1)"
      and full: "tr_full tr1" by blast
    show ?thesis
    proof (cases f1)
      case True
      with inc full \<open>rule sg _ _ _\<close> show ?thesis by auto
    next
      case False
      from Cons.IH [OF full, of ps1] inc False \<open>rule sg _ _ _\<close> show ?thesis by auto
    qed
  next
    case False
    from clearSignal_Inr [OF Cons.prems] obtain sigs1 tr1 where
      c: "clearSignal (signals (ps ! pIndex)) tr sg = Inr (sigs1, tr1)" and full: "tr_full tr1"
      by blast
    from Cons.IH [OF full, of "ps[pIndex := (ps ! pIndex)\<lparr>signals := sigs1\<rparr>]"] c False
    show ?thesis by auto
  qed
qed

lemma pointsLoop_Inr:
  "tr_full tr \<Longrightarrow> 0 \<le> startIndex (ps ! pIndex) \<Longrightarrow> j < int (length data)
     \<Longrightarrow> \<exists>ps' tr' f. pointsLoop data excl pIndex a until j (ps, tr) = Inr (ps', tr', f)"
proof (induction data excl pIndex a until j "(ps, tr)" arbitrary: ps tr rule: pointsLoop.induct)
  case (1 data excl pIndex a until j ps tr)
  show ?case
  proof (cases "j \<ge> startIndex (ps ! pIndex)")
    case False
    then show ?thesis by (auto simp: pointsLoop.simps)
  next
    case True
    with "1.prems" have inr: "\<not> (j < 0 \<or> int (length data) \<le> j)" by simp
    show ?thesis
    proof (cases "Date (data ! nat j) \<notin> excl")
      case False
      from "1.hyps"(2) [OF True inr False] "1.prems" obtain ps' tr' f where
        "pointsLoop data excl pIndex a until (j - 1) (ps, tr) = Inr (ps', tr', f)" by auto
      with True inr False show ?thesis
        by (subst pointsLoop.simps) auto
    next
      case ex: True
      from rulesLoop_Inr [OF "1.prems"(1)] obtain ps1 tr1 f1 where
        r: "rulesLoop SignalEnum (data ! nat j) pIndex j a until (ps, tr) = Inr (ps1, tr1, f1)"
        and full: "tr_full tr1" by blast
      show ?thesis
      proof (cases f1)
        case True
        with r \<open>j \<ge> _\<close> inr ex show ?thesis
          by (subst pointsLoop.simps) auto
      next
        case False
        from False r have r': "rulesLoop SignalEnum (data ! nat j) pIndex j a until (ps, tr)
            = Inr (ps1, tr1, False)" by simp
        then have s: "startIndex (ps1 ! pIndex) = startIndex (ps ! pIndex)"
          by (rule rulesLoop_not_found_startIndex)
        from "1.hyps"(1) [OF True inr ex r' refl refl _ full] s "1.prems" obtain ps' tr' f where
          "pointsLoop data excl pIndex a until (j - 1) (ps1, tr1) = Inr (ps', tr', f)" by auto
        with r' True inr ex show ?thesis
          by (subst pointsLoop.simps) auto
      qed
    qed
  qed
qed

lemma summaryLoop_Inr:
  "0 \<le> i \<Longrightarrow> e \<le> int (length data) \<Longrightarrow> \<exists>st'. summaryLoop data excl i e tmp st = Inr st'"
proof (induction data excl i e tmp st rule: summaryLoop.induct)
  case (1 data excl i e tmp st)
  show ?case
  proof (cases "i < e")
    case False
    then show ?thesis by (simp add: summaryLoop.simps)
  next
    case True
    with "1.prems" have inr: "\<not> (i < 0 \<or> int (length data) \<le> i)" by simp
    from "1.IH" [OF True inr refl] "1.prems" True inr show ?thesis
      by (subst summaryLoop.simps) (simp add: Let_def)
  qed
qed

lemma summaryStatistics_Inr:
  "0 \<le> s \<Longrightarrow> e < int (length data) \<Longrightarrow> \<exists>st. summaryStatistics data excl s e = Inr st"
  using summaryLoop_Inr [of s "e + 1" data excl]
  by (simp add: summaryStatistics_def Let_def)

lemma length_createProcess [simp]: "length (createProcess ps j c) = Suc (length ps)"
  by (simp add: createProcess_def Let_def)

lemma createProcess_nth:
  assumes "i < length ps"
  shows "startIndex (createProcess ps j c ! i) = startIndex (ps ! i)"
    and "cap (createProcess ps j c ! i) = cap (ps ! i)"
    and "endIndex (createProcess ps j c ! i) = (if Suc i = length ps then j - 1 else endIndex (ps ! i))"
    and "signals (createProcess ps j c ! i) = signals (ps ! i)"
  using assms by (auto simp: createProcess_def Let_def nth_append nth_list_update)

lemma createProcess_last:
  "createProcess ps j c ! length ps =
     \<lparr>startIndex = j, endIndex = (if c > -1 \<and> j + 8 > c then c else j + 8), cap = c,
      pmean = None, psd = None, signals = Map.empty\<rparr>"
  by (cases ps rule: rev_cases) (auto simp: createProcess_def Let_def nth_append nth_list_update)

lemma whileLoop_unfold:
  "pIndex < length ps \<Longrightarrow> guard data (ps ! pIndex) \<Longrightarrow>
   whileLoop data excl pIndex a until (ps, tr, False) =
     (case summaryStatistics data excl (startIndex (ps ! pIndex)) (endIndex (ps ! pIndex) + 1) of
        Inl e \<Rightarrow> Inl e
      | Inr st \<Rightarrow>
          (case pointsLoop data excl pIndex a until (endIndex (ps ! pIndex) + 1)
                  (ps[pIndex := body_process (ps ! pIndex) st], initTracker) of
             Inl e \<Rightarrow> Inl e
           | Inr (ps1, tr1, f1) \<Rightarrow>
               if f1 then
                 (case summaryStatistics data excl
                         (startIndex (ps1 ! pIndex)) (endIndex (ps1 ! pIndex)) of
                    Inl e \<Rightarrow> Inl e
                  | Inr st' \<Rightarrow>
                      whileLoop data excl pIndex a until
                        (ps1[pIndex := (ps1 ! pIndex)\<lparr>pmean := smean st', psd := ssd st'\<rparr>],
                         tr1, True))
               else whileLoop data excl pIndex a until (ps1, tr1, False)))"
  by (subst whileLoop.simps)
     (auto simp: guard_def body_process_def Let_def split: sum.splits prod.splits)

lemma whileLoop_Inr:
  "pIndex < length ps \<Longrightarrow> 0 \<le> startIndex (ps ! pIndex)
     \<Longrightarrow> \<exists>ps' tr' f'. whileLoop data excl pIndex a until (ps, tr, False) = Inr (ps', tr', f')"
proof (induction "nat (int (length data) - endIndex (ps ! pIndex))" arbitrary: ps tr rule: less_induct)
  case less
  note len = less.prems(1) and s0 = less.prems(2)
  show ?case
  proof (cases "guard data (ps ! pIndex)")
    case False
    with len show ?thesis by (auto simp: whileLoop_exit)
  next
    case True
    let ?e = "endIndex (ps ! pIndex) + 1"
    from True have e: "?e < int (length data)" by (simp add: guard_def)
    from summaryStatistics_Inr [OF s0 e] obtain st where
      st: "summaryStatistics data excl (startIndex (ps ! pIndex)) ?e = Inr st" by blast
    let ?ps2 = "ps[pIndex := body_process (ps ! pIndex) st]"
    from len s0 have s2: "0 \<le> startIndex (?ps2 ! pIndex)" by (simp add: body_process_def)
    from pointsLoop_Inr [OF tr_full_initTracker s2 e] obtain ps1 tr1 f1 where
      pl: "pointsLoop data excl pIndex a until ?e (?ps2, initTracker) = Inr (ps1, tr1, f1)"
      by blast
    show ?thesis
    proof (cases f1)
      case f1: True
      with pl have pl': "pointsLoop data excl pIndex a until ?e (?ps2, initTracker) = Inr (ps1, tr1, True)"
        by simp
      from pointsLoop_found [OF pl']
      obtain j sigs' where j: "j \<le> ?e"
        and ps1: "ps1 = createProcess (?ps2[pIndex := (?ps2 ! pIndex)\<lparr>signals := sigs'\<rparr>]) j (-1)"
        by blast
      let ?ps3 = "?ps2[pIndex := (?ps2 ! pIndex)\<lparr>signals := sigs'\<rparr>]"
      have len3: "pIndex < length ?ps3" using len by simp
      from createProcess_nth [OF len3, of j "-1"] ps1 len s0 j e
      have "0 \<le> startIndex (ps1 ! pIndex)" "endIndex (ps1 ! pIndex) < int (length data)"
        by (auto simp: body_process_def split: if_splits)
      from summaryStatistics_Inr [OF this] obtain st' where
        st': "summaryStatistics data excl (startIndex (ps1 ! pIndex)) (endIndex (ps1 ! pIndex)) = Inr st'"
        by blast
      from ps1 len have "pIndex < length ps1" by simp
      with st pl f1 st' show ?thesis
        by (auto simp: whileLoop_unfold [OF len True] whileLoop_True)
    next
      case f1: False
      with pl have pl': "pointsLoop data excl pIndex a until ?e (?ps2, initTracker) = Inr (ps1, tr1, False)"
        by simp
      from pointsLoop_not_found [OF pl'] obtain sigs' where
        ps1: "ps1 = ?ps2[pIndex := (?ps2 ! pIndex)\<lparr>signals := sigs'\<rparr>]" by blast
      with len s0 have p1: "pIndex < length ps1" "0 \<le> startIndex (ps1 ! pIndex)"
        "endIndex (ps1 ! pIndex) = ?e"
        by (simp_all add: body_process_def)
      from True p1 have "nat (int (length data) - endIndex (ps1 ! pIndex))
          < nat (int (length data) - endIndex (ps ! pIndex))"
        by (auto simp: guard_def)
      from less.hyps [OF this p1(1,2), of tr1] st pl' show ?thesis
        by (auto simp: whileLoop_unfold [OF len True])
    qed
  qed
qed

lemma flushLoop_Inr: "\<exists>sigs'. flushLoop sgs sigs tr = Inr sigs'"
proof (induction sgs arbitrary: sigs)
  case Nil
  show ?case by simp
next
  case (Cons v rest)
  show ?case
  proof (cases "tr v")
    case None
    with Cons.IH [of sigs] show ?thesis by simp
  next
    case (Some run)
    then have "\<exists>sigs1. addSignalToTracker sigs tr v = Inr sigs1"
      by (auto simp: addSignalToTracker_def)
    then obtain sigs1 where "addSignalToTracker sigs tr v = Inr sigs1" ..
    with Some Cons.IH [of sigs1] show ?thesis by simp
  qed
qed

subsection \<open>One call of \<open>calculateSignals\<close>\<close>

text \<open>The process after the statements before the loop: no signals, the end index
  set to the index before the last one when it is beyond the series and decremented
  otherwise.\<close>

definition pre_process :: "point list \<Rightarrow> process \<Rightarrow> process" where
  "pre_process data p =
     (if endIndex p \<ge> int (length data)
      then p\<lparr>signals := Map.empty, endIndex := int (length data) - 2\<rparr>
      else p\<lparr>signals := Map.empty, endIndex := endIndex p - 1\<rparr>)"

lemma calculateSignals_unfold:
  "pIndex < length ps \<Longrightarrow>
   calculateSignals data ps pIndex a until excl =
     (case whileLoop data excl pIndex a until
             (ps[pIndex := pre_process data (ps ! pIndex)], Map.empty, False) of
        Inl e \<Rightarrow> Inl e
      | Inr (ps1, tr1, f) \<Rightarrow>
          (case flushLoop SignalEnum (signals (ps1 ! pIndex)) tr1 of
             Inl e \<Rightarrow> Inl e
           | Inr sigs' \<Rightarrow>
               if f \<or> Suc pIndex < length ps1
               then calculateSignals data (ps1[pIndex := (ps1 ! pIndex)\<lparr>signals := sigs'\<rparr>])
                      (Suc pIndex) a until excl
               else Inr (ps1[pIndex := (ps1 ! pIndex)\<lparr>signals := sigs'\<rparr>])))"
  by (subst calculateSignals.simps)
     (auto simp: pre_process_def Let_def split: sum.splits prod.splits)

lemma calculateSignals_induct2 [case_names step]:
  assumes step: "\<And>ps k.
     (\<And>ps1 tr1 f sigs'. k < length ps
        \<Longrightarrow> whileLoop data excl k a until (ps[k := pre_process data (ps ! k)], Map.empty, False)
              = Inr (ps1, tr1, f)
        \<Longrightarrow> flushLoop SignalEnum (signals (ps1 ! k)) tr1 = Inr sigs'
        \<Longrightarrow> f \<or> Suc k < length ps1
        \<Longrightarrow> P (ps1[k := (ps1 ! k)\<lparr>signals := sigs'\<rparr>]) (Suc k))
     \<Longrightarrow> P ps k"
  shows "P ps k"
proof -
  have "data' = data \<Longrightarrow> a' = a \<Longrightarrow> until' = until \<Longrightarrow> excl' = excl \<Longrightarrow> P ps k"
    for data' a' until' excl'
  proof (induction data' ps k a' until' excl' rule: calculateSignals.induct)
    case (1 data' ps k a' until' excl')
    note eqs = "1.prems"
    show ?case
    proof (rule step)
      fix ps1 tr1 f sigs'
      assume len: "k < length ps"
        and w: "whileLoop data excl k a until (ps[k := pre_process data (ps ! k)], Map.empty, False)
                  = Inr (ps1, tr1, f)"
        and fl: "flushLoop SignalEnum (signals (ps1 ! k)) tr1 = Inr sigs'"
        and c: "f \<or> Suc k < length ps1"
      have pp: "pre_process data (ps ! k) =
         (if int (length data) \<le> endIndex ((ps ! k)\<lparr>signals := Map.empty\<rparr>)
          then (ps ! k)\<lparr>signals := Map.empty\<rparr>\<lparr>endIndex := int (length data) - 2\<rparr>
          else (ps ! k)\<lparr>signals := Map.empty\<rparr>\<lparr>endIndex := endIndex ((ps ! k)\<lparr>signals := Map.empty\<rparr>) - 1\<rparr>)"
        by (simp add: pre_process_def)
      from len have 1: "\<not> length ps \<le> k" by simp
      from c have c': "f \<or> int k < int (length (ps1[k := (ps1 ! k)\<lparr>signals := sigs'\<rparr>])) - 1"
        by auto
      from w eqs have w': "whileLoop data' excl' k a' until'
          (ps[k := pre_process data' (ps ! k)], Map.empty, False) = Inr (ps1, tr1, f)" by simp
      from "1.IH" [OF 1 refl refl w' [unfolded pp [unfolded eqs(1) [symmetric]]] refl refl fl refl c' eqs]
      show "P (ps1[k := (ps1 ! k)\<lparr>signals := sigs'\<rparr>]) (Suc k)" by simp
    qed
  qed
  then show ?thesis by simp
qed

lemma pre_process_simps [simp]:
  "startIndex (pre_process data p) = startIndex p"
  "cap (pre_process data p) = cap p"
  "endIndex (pre_process data p)
     = (if endIndex p \<ge> int (length data) then int (length data) - 2 else endIndex p - 1)"
  by (simp_all add: pre_process_def)

lemma whileLoop_length:
  assumes "whileLoop data excl pIndex a until (ps, tr, False) = Inr (ps', tr', f')"
  shows "length ps' = (if f' then Suc (length ps) else length ps)"
proof (cases f')
  case True
  with whileLoop_bounds [OF assms] obtain e j where
    "map bounds ps' = newProcess (setEnd (map bounds ps) pIndex e) j (-1)" by auto
  then have "length (map bounds ps') = length (newProcess (setEnd (map bounds ps) pIndex e) j (-1))"
    by simp
  with True show ?thesis by simp
next
  case False
  with whileLoop_bounds [OF assms] obtain e where
    "map bounds ps' = setEnd (map bounds ps) pIndex e" by auto
  then have "length (map bounds ps') = length (setEnd (map bounds ps) pIndex e)"
    by simp
  with False show ?thesis by simp
qed

lemma calculateSignals_Inr:
  "k < length ps \<Longrightarrow> \<forall>p \<in> set ps. 0 \<le> startIndex p
     \<Longrightarrow> \<exists>R. calculateSignals data ps k a until excl = Inr R"
proof (induction ps k rule: calculateSignals_induct2 [where data = data and excl = excl and a = a and until = until])
  case (step ps k)
  note len = step.prems(1) and nn = step.prems(2)
  let ?ps0 = "ps[k := pre_process data (ps ! k)]"
  from len nn have s0: "0 \<le> startIndex (?ps0 ! k)" by simp
  from len have len0: "k < length ?ps0" by simp
  from whileLoop_Inr [OF len0 s0] obtain ps1 tr1 f where
    w: "whileLoop data excl k a until (?ps0, Map.empty, False) = Inr (ps1, tr1, f)" by blast
  from flushLoop_Inr obtain sigs' where
    fl: "flushLoop SignalEnum (signals (ps1 ! k)) tr1 = Inr sigs'" by blast
  let ?ps2 = "ps1[k := (ps1 ! k)\<lparr>signals := sigs'\<rparr>]"
  show ?case
  proof (cases "f \<or> Suc k < length ps1")
    case False
    with w fl show ?thesis by (simp add: calculateSignals_unfold [OF len])
  next
    case True
    have st0: "map startIndex ?ps0 = map startIndex ps"
      by (rule map_startIndex_update) simp
    have "set (map startIndex ps1) \<subseteq> {s. 0 \<le> s}"
    proof (cases f)
      case True
      with whileLoop_starts [OF w] st0 len obtain j where
        j: "startIndex (ps ! k) < j" "map startIndex ps1 = map startIndex ps @ [j]" by auto
      from j(2) have "set (map startIndex ps1) = set (map startIndex ps @ [j])" by simp
      moreover from nn len have "0 \<le> startIndex (ps ! k)" by simp
      ultimately show ?thesis using j(1) nn by auto
    next
      case False
      with whileLoop_starts [OF w] st0 have "map startIndex ps1 = map startIndex ps" by simp
      then have "set (map startIndex ps1) = set (map startIndex ps)" by simp
      with nn show ?thesis by auto
    qed
    then have nn0: "\<forall>p \<in> set ps1. 0 \<le> startIndex p"
      by (auto simp: image_subset_iff)
    from whileLoop_length [OF w] True len have len1: "Suc k < length ?ps2"
      by (auto split: if_splits)
    then have "k < length ps1" by simp
    with nn0 have "0 \<le> startIndex (ps1 ! k)" by simp
    with nn0 have nn1: "\<forall>p \<in> set ?ps2. 0 \<le> startIndex p"
      by (auto dest!: set_update_subset_insert [THEN subsetD])
    from step.IH [OF len w fl True len1 nn1] w fl True show ?thesis
      by (simp add: calculateSignals_unfold [OF len])
  qed
qed

lemma calculateSignals_cases:
  assumes "calculateSignals data ps k a until excl = Inr R"
  obtains ps1 tr1 f sigs' where
    "k < length ps"
    "whileLoop data excl k a until (ps[k := pre_process data (ps ! k)], Map.empty, False)
       = Inr (ps1, tr1, f)"
    "flushLoop SignalEnum (signals (ps1 ! k)) tr1 = Inr sigs'"
    "if f \<or> Suc k < length ps1
     then calculateSignals data (ps1[k := (ps1 ! k)\<lparr>signals := sigs'\<rparr>]) (Suc k) a until excl = Inr R
     else R = ps1[k := (ps1 ! k)\<lparr>signals := sigs'\<rparr>]"
proof -
  from assms have len: "k < length ps"
    by (subst (asm) calculateSignals.simps) (simp split: if_splits)
  note u = assms [unfolded calculateSignals_unfold [OF len]]
  from u obtain ps1 tr1 f where
    w: "whileLoop data excl k a until (ps[k := pre_process data (ps ! k)], Map.empty, False)
       = Inr (ps1, tr1, f)"
    by (auto split: sum.splits)
  from u w obtain sigs' where fl: "flushLoop SignalEnum (signals (ps1 ! k)) tr1 = Inr sigs'"
    by (auto split: sum.splits)
  from u w fl have "if f \<or> Suc k < length ps1
     then calculateSignals data (ps1[k := (ps1 ! k)\<lparr>signals := sigs'\<rparr>]) (Suc k) a until excl = Inr R
     else R = ps1[k := (ps1 ! k)\<lparr>signals := sigs'\<rparr>]"
    by (auto split: if_splits)
  with len w fl show thesis by (rule that)
qed

subsection \<open>The partition of the series\<close>

abbreviation bS :: "int \<times> int \<times> int \<Rightarrow> int" where "bS b \<equiv> fst b"
abbreviation bE :: "int \<times> int \<times> int \<Rightarrow> int" where "bE b \<equiv> fst (snd b)"
abbreviation bC :: "int \<times> int \<times> int \<Rightarrow> int" where "bC b \<equiv> snd (snd b)"

text \<open>
  What one call of \<open>calculateSignals\<close> does to the bounds of the processes: with no
  process found the current process ends where the loop stopped; with a process found
  (only under automatic detection) a process is appended, starting after the start of
  the current one, at or before the index the loop had reached.
\<close>

definition loop_rel ::
  "int \<Rightarrow> bool \<Rightarrow> nat \<Rightarrow> (int \<times> int \<times> int) list \<Rightarrow> (int \<times> int \<times> int) list \<Rightarrow> bool \<Rightarrow> bool" where
  "loop_rel n a k bs bs1 f \<longleftrightarrow>
     (let s = bS (bs ! k); c = bC (bs ! k);
          e0 = (if bE (bs ! k) \<ge> n then n - 2 else bE (bs ! k) - 1)
      in if f then
           a \<and> (\<exists>e j. e0 < e \<and> e < n \<and> (c = -1 \<or> e \<le> c) \<and> s < j \<and> j \<le> e \<and> 0 \<le> j
                   \<and> bs1 = newProcess (setEnd bs k e) j (-1))
         else
           (\<exists>e. e0 \<le> e \<and> \<not> (e < n - 1 \<and> (c = -1 \<or> e < c))
                \<and> (e = e0 \<or> e < n \<and> (c = -1 \<or> e \<le> c))
                \<and> bs1 = setEnd bs k e))"

lemma whileLoop_loop_rel:
  assumes len: "k < length ps"
    and w: "whileLoop data excl k a until (ps[k := pre_process data (ps ! k)], Map.empty, False)
              = Inr (ps1, tr1, f)"
  shows "loop_rel (int (length data)) a k (map bounds ps)
           (map bounds (ps1[k := (ps1 ! k)\<lparr>signals := sigs'\<rparr>])) f"
proof -
  let ?ps0 = "ps[k := pre_process data (ps ! k)]"
  let ?e0 = "if endIndex (ps ! k) \<ge> int (length data) then int (length data) - 2
             else endIndex (ps ! k) - 1"
  have b2: "map bounds (ps1[k := (ps1 ! k)\<lparr>signals := sigs'\<rparr>]) = map bounds ps1"
    by (rule bounds_update_same) (simp add: bounds_def)
  from len have b0: "map bounds ?ps0 = setEnd (map bounds ps) k ?e0"
    using bounds_update_setEnd [of k ps "pre_process data (ps ! k)"] by simp
  from len have p0: "startIndex (?ps0 ! k) = startIndex (ps ! k)" "cap (?ps0 ! k) = cap (ps ! k)"
    "endIndex (?ps0 ! k) = ?e0" by simp_all
  from len have nb: "bS (map bounds ps ! k) = startIndex (ps ! k)"
    "bE (map bounds ps ! k) = endIndex (ps ! k)" "bC (map bounds ps ! k) = cap (ps ! k)"
    by (simp_all add: bounds_def)
  from whileLoop_bounds [OF w] show ?thesis
    unfolding loop_rel_def Let_def b2 nb b0 p0 setEnd_setEnd
    by (auto split: if_splits)
qed


text \<open>
  The invariant of the recursion at process \<open>k\<close>, on the bounds: the processes are
  contiguous from index 0 and, but for the last one, not empty; every process from \<open>k\<close> on
  but the last is capped at its end (a manual process); the last process is as
  \<open>createProcess\<close> left it, uncapped or capped at the last index of the series; and under
  automatic detection the current process is the last one.
\<close>

definition seg_inv :: "int \<Rightarrow> bool \<Rightarrow> (int \<times> int \<times> int) list \<Rightarrow> nat \<Rightarrow> bool" where
  "seg_inv n a bs k \<longleftrightarrow>
     k < length bs \<and> bS (bs ! 0) = 0
     \<and> (\<forall>i. Suc i < length bs \<longrightarrow> bS (bs ! Suc i) = bE (bs ! i) + 1 \<and> bS (bs ! i) \<le> bE (bs ! i))
     \<and> (\<forall>i < length bs. 0 \<le> bS (bs ! i) \<and> bS (bs ! i) \<le> max 0 (n - 1))
     \<and> (\<forall>i. k \<le> i \<and> Suc i < length bs \<longrightarrow> bC (bs ! i) = bE (bs ! i))
     \<and> ((bC (last bs) = -1 \<and> bE (last bs) = bS (last bs) + 8)
        \<or> (bC (last bs) = n - 1 \<and> -1 < bC (last bs)
            \<and> bE (last bs) = min (bS (last bs) + 8) (bC (last bs))))
     \<and> (a \<longrightarrow> Suc k = length bs)"

definition seg_final :: "int \<Rightarrow> (int \<times> int \<times> int) list \<Rightarrow> bool" where
  "seg_final n bs \<longleftrightarrow>
     bs \<noteq> [] \<and> bS (bs ! 0) = 0
     \<and> (\<forall>i. Suc i < length bs \<longrightarrow> bS (bs ! Suc i) = bE (bs ! i) + 1 \<and> bS (bs ! i) \<le> bE (bs ! i))
     \<and> (\<forall>i < length bs. 0 \<le> bS (bs ! i) \<and> bS (bs ! i) \<le> max 0 (n - 1))
     \<and> bE (last bs) = n - 1"

lemma nth_setEnd:
  "setEnd bs k e ! i = (if i = k \<and> k < length bs then (bS (bs ! k), e, bC (bs ! k)) else bs ! i)"
  by (cases "k < length bs") (auto simp: setEnd_def nth_list_update list_update_beyond)

lemma setEnd_eq_Nil [simp]: "setEnd bs k e = [] \<longleftrightarrow> bs = []"
  by (simp add: setEnd_def)

lemma last_setEnd:
  "bs \<noteq> [] \<Longrightarrow> last (setEnd bs k e)
     = (if Suc k = length bs then (bS (bs ! k), e, bC (bs ! k)) else last bs)"
proof -
  assume ne: "bs \<noteq> []"
  then have "Suc k = length bs \<longleftrightarrow> length bs - 1 = k" by (cases bs) auto
  with ne show ?thesis by (auto simp: last_conv_nth nth_setEnd)
qed

lemma newProcess_last_conv:
  "Suc k = length bs \<Longrightarrow>
     newProcess (setEnd bs k e) j (-1) = setEnd bs k (j - 1) @ [(j, j + 8, -1)]"
proof -
  assume k: "Suc k = length bs"
  then have 1: "length bs - Suc 0 = k" and 2: "k < length bs" by auto
  show ?thesis
    by (simp add: newProcess_def Let_def setEnd_def list_update_append nth_append 1 2)
qed

lemma seg_inv_step:
  assumes inv: "seg_inv n a bs k" and rel: "loop_rel n a k bs bs1 f"
  shows "if f \<or> Suc k < length bs1 then seg_inv n a bs1 (Suc k) else seg_final n bs1"
proof -
  from inv have len: "k < length bs" and ne: "bs \<noteq> []" by (auto simp: seg_inv_def)
  from inv have s0: "bS (bs ! 0) = 0"
    and cont: "\<And>i. Suc i < length bs \<Longrightarrow> bS (bs ! Suc i) = bE (bs ! i) + 1 \<and> bS (bs ! i) \<le> bE (bs ! i)"
    and rng: "\<And>i. i < length bs \<Longrightarrow> 0 \<le> bS (bs ! i) \<and> bS (bs ! i) \<le> max 0 (n - 1)"
    and capd: "\<And>i. k \<le> i \<Longrightarrow> Suc i < length bs \<Longrightarrow> bC (bs ! i) = bE (bs ! i)"
    and lst: "(bC (last bs) = -1 \<and> bE (last bs) = bS (last bs) + 8)
        \<or> (bC (last bs) = n - 1 \<and> -1 < bC (last bs)
            \<and> bE (last bs) = min (bS (last bs) + 8) (bC (last bs)))"
    and au: "a \<Longrightarrow> Suc k = length bs"
    by (auto simp: seg_inv_def)
  show ?thesis
  proof (cases "Suc k < length bs")
    case True
    with au have na: "\<not> a" by auto
    with rel have nf: "\<not> f" by (auto simp: loop_rel_def Let_def)
    from True capd have c: "bC (bs ! k) = bE (bs ! k)" by simp
    from cont [OF True] rng [OF True] rng [OF len] have
      ek: "bS (bs ! k) \<le> bE (bs ! k)" "bE (bs ! k) + 1 \<le> max 0 (n - 1)" "0 \<le> bS (bs ! k)"
      by auto
    from rel nf c ek have "bs1 = setEnd bs k (bE (bs ! k))"
      by (auto simp: loop_rel_def Let_def split: if_splits intro!: arg_cong [where f = "setEnd bs k"])
    then have "bs1 = bs" by (simp add: setEnd_def list_update_same_conv len)
    with inv True na nf show ?thesis by (auto simp: seg_inv_def)
  next
    case False
    with len have k: "Suc k = length bs" by simp
    then have lk: "last bs = bs ! k" using ne by (auto simp: last_conv_nth dest: sym)
    show ?thesis
    proof (cases f)
      case nf: False
      from rel nf lst lk have "bs1 = setEnd bs k (n - 1)"
        by (auto simp: loop_rel_def Let_def split: if_splits intro!: arg_cong [where f = "setEnd bs k"])
      with nf k ne s0 cont rng show ?thesis
        by (auto simp: seg_final_def nth_setEnd last_setEnd)
    next
      case f: True
      with rel obtain e j where a: "a" and j: "bS (bs ! k) < j" "j \<le> e" "0 \<le> j" "e < n"
        and bs1: "bs1 = newProcess (setEnd bs k e) j (-1)"
        by (auto simp: loop_rel_def Let_def)
      from bs1 k have bs1': "bs1 = setEnd bs k (j - 1) @ [(j, j + 8, -1)]"
        by (simp add: newProcess_last_conv)
      have "seg_inv n a bs1 (Suc k)"
        unfolding seg_inv_def
      proof (intro conjI allI impI)
        show "Suc k < length bs1" using bs1' k by simp
        show "bS (bs1 ! 0) = 0" using bs1' s0 ne by (simp add: nth_append nth_setEnd)
        show "a \<Longrightarrow> Suc (Suc k) = length bs1" using bs1' k by simp
      next
        fix i assume "Suc i < length bs1"
        with bs1' k have i: "i \<le> k" by simp
        show "bS (bs1 ! Suc i) = bE (bs1 ! i) + 1"
        proof (cases "i = k")
          case True
          with bs1' k show ?thesis by (simp add: nth_append nth_setEnd)
        next
          case False
          with i k have "Suc i < length bs" by simp
          with cont [OF this] False i k bs1' show ?thesis
            by (auto simp: nth_append nth_setEnd)
        qed
        show "bS (bs1 ! i) \<le> bE (bs1 ! i)"
        proof (cases "i = k")
          case True
          with bs1' k j show ?thesis by (simp add: nth_append nth_setEnd)
        next
          case False
          with i k have "Suc i < length bs" by simp
          with cont [OF this] False i k bs1' show ?thesis
            by (auto simp: nth_append nth_setEnd)
        qed
      next
        fix i assume "i < length bs1"
        with bs1' k have i: "i \<le> Suc k" by simp
        show "0 \<le> bS (bs1 ! i)" using i k bs1' j rng [of i]
          by (cases "i = Suc k") (auto simp: nth_append nth_setEnd)
        show "bS (bs1 ! i) \<le> max 0 (n - 1)" using i k bs1' j rng [of i]
          by (cases "i = Suc k") (auto simp: nth_append nth_setEnd)
      next
        fix i assume "Suc k \<le> i \<and> Suc i < length bs1"
        with bs1' k show "bC (bs1 ! i) = bE (bs1 ! i)" by simp
      next
        show "(bC (last bs1) = -1 \<and> bE (last bs1) = bS (last bs1) + 8)
          \<or> (bC (last bs1) = n - 1 \<and> -1 < bC (last bs1)
              \<and> bE (last bs1) = min (bS (last bs1) + 8) (bC (last bs1)))"
          using bs1' by simp
      qed
      moreover from bs1' k have "Suc k < length bs1" by simp
      ultimately show ?thesis using f by simp
    qed
  qed
qed


lemma calculateSignals_seg_final:
  assumes "calculateSignals data ps k a until excl = Inr R"
    and "seg_inv (int (length data)) a (map bounds ps) k"
  shows "seg_final (int (length data)) (map bounds R)"
  using assms
proof (induction ps k rule: calculateSignals_induct2 [where data = data and excl = excl and a = a and until = until])
  case (step ps k)
  from step.prems(1) show ?case
  proof (cases rule: calculateSignals_cases)
    case (1 ps1 tr1 f sigs')
    let ?ps2 = "ps1[k := (ps1 ! k)\<lparr>signals := sigs'\<rparr>]"
    from whileLoop_loop_rel [OF 1(1,2)] have
      "loop_rel (int (length data)) a k (map bounds ps) (map bounds ?ps2) f" .
    from seg_inv_step [OF step.prems(2) this] have
      st: "if f \<or> Suc k < length ?ps2 then seg_inv (int (length data)) a (map bounds ?ps2) (Suc k)
           else seg_final (int (length data)) (map bounds ?ps2)" by simp
    show ?thesis
    proof (cases "f \<or> Suc k < length ps1")
      case True
      with 1(4) st step.IH [OF 1(1,2,3) True] show ?thesis by simp
    next
      case False
      with 1(4) st show ?thesis by simp
    qed
  qed
qed

lemma seg_final_mono:
  assumes "seg_final n bs" and "i < j" and "j < length bs"
  shows "bE (bs ! i) < bS (bs ! j)"
  using assms(2,3)
proof (induction j)
  case 0
  then show ?case by simp
next
  case (Suc j)
  from assms(1) Suc.prems(2) have c: "bS (bs ! Suc j) = bE (bs ! j) + 1" "bS (bs ! j) \<le> bE (bs ! j)"
    by (auto simp: seg_final_def)
  show ?case
  proof (cases "i = j")
    case True
    with c show ?thesis by simp
  next
    case False
    with Suc.prems have "i < j" "j < length bs" by simp_all
    from Suc.IH [OF this] c show ?thesis by simp
  qed
qed

lemma seg_final_cover:
  assumes fin: "seg_final n bs" and x: "0 \<le> x" "x < n"
  shows "\<exists>!i. i < length bs \<and> bS (bs ! i) \<le> x \<and> x \<le> bE (bs ! i)"
proof -
  from fin have ne: "bs \<noteq> []" and s0: "bS (bs ! 0) = 0"
    and cont: "\<And>i. Suc i < length bs \<Longrightarrow> bS (bs ! Suc i) = bE (bs ! i) + 1"
    and lst: "bE (last bs) = n - 1"
    by (auto simp: seg_final_def)
  have ex: "m < length bs \<Longrightarrow> bS (bs ! m) \<le> x
      \<Longrightarrow> \<exists>i. i < length bs \<and> bS (bs ! i) \<le> x \<and> x \<le> bE (bs ! i)" for m
  proof (induction "length bs - m" arbitrary: m)
    case 0
    then show ?case by simp
  next
    case (Suc d)
    show ?case
    proof (cases "Suc m < length bs \<and> bS (bs ! Suc m) \<le> x")
      case True
      with Suc.hyps(1) [of "Suc m"] Suc.hyps(2) show ?thesis by auto
    next
      case False
      have "x \<le> bE (bs ! m)"
      proof (cases "Suc m < length bs")
        case True
        with False cont [OF True] show ?thesis by simp
      next
        case False
        with Suc.prems(1) have "m = length bs - 1" by simp
        with ne lst x show ?thesis by (simp add: last_conv_nth)
      qed
      with Suc.prems show ?thesis by blast
    qed
  qed
  from ne s0 x have "0 < length bs" "bS (bs ! 0) \<le> x" by simp_all
  from ex [OF this] obtain i where i: "i < length bs" "bS (bs ! i) \<le> x" "x \<le> bE (bs ! i)"
    by blast
  show ?thesis
  proof (rule ex1I [of _ i])
    from i show "i < length bs \<and> bS (bs ! i) \<le> x \<and> x \<le> bE (bs ! i)" by simp
  next
    fix i' assume i': "i' < length bs \<and> bS (bs ! i') \<le> x \<and> x \<le> bE (bs ! i')"
    show "i' = i"
    proof (rule ccontr)
      assume "i' \<noteq> i"
      then consider "i < i'" | "i' < i" by linarith
      then show False
      proof cases
        case 1
        from seg_final_mono [OF fin 1] i i' show False by simp
      next
        case 2
        from seg_final_mono [OF fin 2] i i' show False by simp
      qed
    qed
  qed
qed

subsection \<open>The initial processes\<close>

lemma newProcess_conv:
  "newProcess bs j c =
     (if bs = [] then [(j, if c > -1 \<and> j + 8 > c then c else j + 8, c)]
      else setEnd bs (length bs - 1) (j - 1) @ [(j, if c > -1 \<and> j + 8 > c then c else j + 8, c)])"
  by (cases bs rule: rev_cases)
     (simp_all add: newProcess_def Let_def setEnd_def list_update_append nth_append)

lemma seg_inv_single: "seg_inv n a (map bounds (createProcess [] 0 (-1))) 0"
  by (simp add: bounds_createProcess newProcess_conv seg_inv_def)

text \<open>
  The manual break points that the click handler of \<open>displayChart\<close> lets in: inside the
  series, after its first index, and no index twice.
\<close>

definition manual_ok :: "nat \<Rightarrow> int list \<Rightarrow> bool" where
  "manual_ok n ms \<longleftrightarrow> distinct ms \<and> (\<forall>p \<in> set ms. 1 \<le> p \<and> p \<le> int n - 1)"

text \<open>
  The invariant of the loop over the manual break points, on the bounds built so far:
  contiguous processes from index 0, each but the last ending at its cap, the last one
  capped before the previous break point \<open>prev\<close>.
\<close>

definition manual_inv :: "int \<Rightarrow> (int \<times> int \<times> int) list \<Rightarrow> int \<Rightarrow> bool" where
  "manual_inv n bs prev \<longleftrightarrow>
     (bs = [] \<and> prev = 0)
     \<or> (bs \<noteq> [] \<and> bS (bs ! 0) = 0
         \<and> (\<forall>i. Suc i < length bs \<longrightarrow> bS (bs ! Suc i) = bE (bs ! i) + 1
                \<and> bS (bs ! i) \<le> bE (bs ! i) \<and> bC (bs ! i) = bE (bs ! i))
         \<and> (\<forall>i < length bs. 0 \<le> bS (bs ! i) \<and> bS (bs ! i) \<le> max 0 (n - 1))
         \<and> bS (last bs) < prev \<and> bC (last bs) = prev - 1)"

lemma manual_inv_step:
  assumes "manual_inv n bs prev" and "0 \<le> prev" and "prev < p" and "p \<le> n - 1"
  shows "manual_inv n (newProcess bs prev (p - 1)) p"
proof (cases "bs = []")
  case True
  with assms show ?thesis
    by (auto simp: manual_inv_def newProcess_conv)
next
  case False
  let ?x = "(prev, if p - 1 > -1 \<and> prev + 8 > p - 1 then p - 1 else prev + 8, p - 1)"
  let ?k = "length bs - 1"
  from False have k: "Suc ?k = length bs" by simp
  have bs1: "newProcess bs prev (p - 1) = setEnd bs ?k (prev - 1) @ [?x]"
    using False by (simp add: newProcess_conv)
  from assms(1) False have s0: "bS (bs ! 0) = 0"
    and cont: "\<And>i. Suc i < length bs \<Longrightarrow> bS (bs ! Suc i) = bE (bs ! i) + 1
                \<and> bS (bs ! i) \<le> bE (bs ! i) \<and> bC (bs ! i) = bE (bs ! i)"
    and rng: "\<And>i. i < length bs \<Longrightarrow> 0 \<le> bS (bs ! i) \<and> bS (bs ! i) \<le> max 0 (n - 1)"
    and lst: "bS (last bs) < prev" "bC (last bs) = prev - 1"
    by (auto simp: manual_inv_def)
  from False have lk: "last bs = bs ! ?k" by (simp add: last_conv_nth)
  let ?bs1 = "setEnd bs ?k (prev - 1) @ [?x]"
  have "manual_inv n ?bs1 p"
    unfolding manual_inv_def
  proof (intro disjI2 conjI allI impI)
    show "?bs1 \<noteq> []" by simp
    show "bS (?bs1 ! 0) = 0" using s0 False by (simp add: nth_append nth_setEnd)
    show "bS (last ?bs1) < p" using assms by simp
    show "bC (last ?bs1) = p - 1" by simp
  next
    fix i assume "Suc i < length ?bs1"
    with k have i: "i \<le> ?k" by simp
    show "bS (?bs1 ! Suc i) = bE (?bs1 ! i) + 1"
    proof (cases "i = ?k")
      case True
      with k show ?thesis by (simp add: nth_append nth_setEnd)
    next
      case ne: False
      with i k have "Suc i < length bs" by simp
      with cont [OF this] ne i k show ?thesis by (auto simp: nth_append nth_setEnd)
    qed
    show "bS (?bs1 ! i) \<le> bE (?bs1 ! i)"
    proof (cases "i = ?k")
      case True
      with k lst lk show ?thesis by (simp add: nth_append nth_setEnd)
    next
      case ne: False
      with i k have "Suc i < length bs" by simp
      with cont [OF this] ne i k show ?thesis by (auto simp: nth_append nth_setEnd)
    qed
    show "bC (?bs1 ! i) = bE (?bs1 ! i)"
    proof (cases "i = ?k")
      case True
      with k lst lk show ?thesis by (simp add: nth_append nth_setEnd)
    next
      case ne: False
      with i k have "Suc i < length bs" by simp
      with cont [OF this] ne i k show ?thesis by (auto simp: nth_append nth_setEnd)
    qed
  next
    fix i assume "i < length ?bs1"
    with k have i: "i \<le> Suc ?k" by simp
    show "0 \<le> bS (?bs1 ! i)" using i k assms rng [of i]
      by (cases "i = Suc ?k") (auto simp: nth_append nth_setEnd)
    show "bS (?bs1 ! i) \<le> max 0 (n - 1)" using i k assms rng [of i]
      by (cases "i = Suc ?k") (auto simp: nth_append nth_setEnd)
  qed
  with bs1 show ?thesis by simp
qed

lemma manual_inv_final:
  assumes "manual_inv n bs p" and "bs \<noteq> []" and "0 < p" and "p \<le> n - 1"
  shows "seg_inv n False (newProcess bs p (n - 1)) 0"
proof -
  let ?x = "(p, if n - 1 > -1 \<and> p + 8 > n - 1 then n - 1 else p + 8, n - 1)"
  let ?k = "length bs - 1"
  from assms(2) have k: "Suc ?k = length bs" by simp
  have bs1: "newProcess bs p (n - 1) = setEnd bs ?k (p - 1) @ [?x]"
    using assms(2) by (simp add: newProcess_conv)
  from assms(1,2) have s0: "bS (bs ! 0) = 0"
    and cont: "\<And>i. Suc i < length bs \<Longrightarrow> bS (bs ! Suc i) = bE (bs ! i) + 1
                \<and> bS (bs ! i) \<le> bE (bs ! i) \<and> bC (bs ! i) = bE (bs ! i)"
    and rng: "\<And>i. i < length bs \<Longrightarrow> 0 \<le> bS (bs ! i) \<and> bS (bs ! i) \<le> max 0 (n - 1)"
    and lst: "bS (last bs) < p" "bC (last bs) = p - 1"
    by (auto simp: manual_inv_def)
  from assms(2) have lk: "last bs = bs ! ?k" by (simp add: last_conv_nth)
  let ?bs1 = "setEnd bs ?k (p - 1) @ [?x]"
  have "seg_inv n False ?bs1 0"
    unfolding seg_inv_def
  proof (intro conjI allI impI)
    show "0 < length ?bs1" by simp
    show "bS (?bs1 ! 0) = 0" using s0 assms(2) by (simp add: nth_append nth_setEnd)
    show "(bC (last ?bs1) = -1 \<and> bE (last ?bs1) = bS (last ?bs1) + 8)
        \<or> (bC (last ?bs1) = n - 1 \<and> -1 < bC (last ?bs1)
            \<and> bE (last ?bs1) = min (bS (last ?bs1) + 8) (bC (last ?bs1)))"
      using assms(3,4) by auto
    show "False \<Longrightarrow> Suc 0 = length ?bs1" by simp
  next
    fix i assume "Suc i < length ?bs1"
    with k have i: "i \<le> ?k" by simp
    show "bS (?bs1 ! Suc i) = bE (?bs1 ! i) + 1"
    proof (cases "i = ?k")
      case True
      with k show ?thesis by (simp add: nth_append nth_setEnd)
    next
      case ne: False
      with i k have "Suc i < length bs" by simp
      with cont [OF this] ne i k show ?thesis by (auto simp: nth_append nth_setEnd)
    qed
    show "bS (?bs1 ! i) \<le> bE (?bs1 ! i)"
    proof (cases "i = ?k")
      case True
      with k lst lk show ?thesis by (simp add: nth_append nth_setEnd)
    next
      case ne: False
      with i k have "Suc i < length bs" by simp
      with cont [OF this] ne i k show ?thesis by (auto simp: nth_append nth_setEnd)
    qed
  next
    fix i assume "i < length ?bs1"
    with k have i: "i \<le> Suc ?k" by simp
    show "0 \<le> bS (?bs1 ! i)" using i k assms rng [of i]
      by (cases "i = Suc ?k") (auto simp: nth_append nth_setEnd)
    show "bS (?bs1 ! i) \<le> max 0 (n - 1)" using i k assms rng [of i]
      by (cases "i = Suc ?k") (auto simp: nth_append nth_setEnd)
  next
    fix i assume "0 \<le> i \<and> Suc i < length ?bs1"
    with k have i: "i \<le> ?k" by simp
    show "bC (?bs1 ! i) = bE (?bs1 ! i)"
    proof (cases "i = ?k")
      case True
      with k lst lk show ?thesis by (simp add: nth_append nth_setEnd)
    next
      case ne: False
      with i k have "Suc i < length bs" by simp
      with cont [OF this] ne i k show ?thesis by (auto simp: nth_append nth_setEnd)
    qed
  qed
  with bs1 show ?thesis by simp
qed

lemma manualLoop_seg_inv:
  assumes "ms \<noteq> []" and "sorted_wrt (<) ms" and "\<forall>p \<in> set ms. prev < p \<and> p \<le> int n - 1"
    and "0 \<le> prev" and "manual_inv (int n) (map bounds ps) prev"
  shows "seg_inv (int n) False (map bounds (manualLoop ms n prev ps)) 0"
  using assms
proof (induction ms arbitrary: prev ps)
  case Nil
  then show ?case by simp
next
  case (Cons p rest)
  from Cons.prems have p: "prev < p" "p \<le> int n - 1" by simp_all
  let ?ps1 = "createProcess ps prev (p - 1)"
  from manual_inv_step [OF Cons.prems(5,4) p] have
    inv1: "manual_inv (int n) (map bounds ?ps1) p" by (simp add: bounds_createProcess)
  show ?case
  proof (cases "rest = []")
    case True
    have "map bounds ?ps1 \<noteq> []" by (simp add: bounds_createProcess newProcess_conv)
    from manual_inv_final [OF inv1 this] p Cons.prems(4) True show ?thesis
      by (simp add: bounds_createProcess Let_def)
  next
    case False
    from Cons.prems p have "sorted_wrt (<) rest" "\<forall>q \<in> set rest. p < q \<and> q \<le> int n - 1" "0 \<le> p"
      by auto
    from Cons.IH [OF False this inv1] False show ?thesis by (simp add: Let_def)
  qed
qed



section \<open>The signal catalogue\<close>

text \<open>
  C5. The catalogue has exactly eight rules. For every value \<open>v\<close>, mean \<open>m\<close> and
  standard deviation \<open>s\<close>, an over rule holds iff \<open>v > m + k * s\<close> and an under rule
  iff \<open>v < m - k * s\<close>, with \<open>k\<close> = 3, 2, 1.5 for the rules of run length 1, 2, 3;
  the two rules of run length 8 compare with the mean alone. The ranks (\<open>index\<close>) run
  from \<open>ONE_UNDER_THREE\<close> = 0 to \<open>ONE_OVER_THREE\<close> = 7 in the order of the table.
\<close>

theorem signal_catalogue:
  "distinct SignalEnum \<and> set SignalEnum = UNIV \<and> length SignalEnum = 8
   \<and> rule ONE_UNDER_THREE v (Some m) (Some s) = (v < m - 3 * s)
   \<and> rule TWO_UNDER_TWO v (Some m) (Some s) = (v < m - 2 * s)
   \<and> rule THREE_UNDER_ONE_FIVE v (Some m) (Some s) = (v < m - 1.5 * s)
   \<and> rule EIGHT_UNDER_MEAN v (Some m) (Some s) = (v < m)
   \<and> rule EIGHT_OVER_MEAN v (Some m) (Some s) = (v > m)
   \<and> rule THREE_OVER_ONE_FIVE v (Some m) (Some s) = (v > m + 1.5 * s)
   \<and> rule TWO_OVER_TWO v (Some m) (Some s) = (v > m + 2 * s)
   \<and> rule ONE_OVER_THREE v (Some m) (Some s) = (v > m + 3 * s)
   \<and> map sig_length
         [ONE_UNDER_THREE, TWO_UNDER_TWO, THREE_UNDER_ONE_FIVE, EIGHT_UNDER_MEAN,
          EIGHT_OVER_MEAN, THREE_OVER_ONE_FIVE, TWO_OVER_TWO, ONE_OVER_THREE]
       = [1, 2, 3, 8, 8, 3, 2, 1]
   \<and> map sig_index
         [ONE_UNDER_THREE, TWO_UNDER_TWO, THREE_UNDER_ONE_FIVE, EIGHT_UNDER_MEAN,
          EIGHT_OVER_MEAN, THREE_OVER_ONE_FIVE, TWO_OVER_TWO, ONE_OVER_THREE]
       = [0, 1, 2, 3, 4, 5, 6, 7]"
proof -
  have "set SignalEnum = UNIV"
  proof
    show "UNIV \<subseteq> set SignalEnum"
    proof
      fix sg :: signal
      show "sg \<in> set SignalEnum" by (cases sg) (simp_all add: SignalEnum_def)
    qed
  qed simp
  moreover have "distinct SignalEnum" "length SignalEnum = 8"
    by (simp_all add: SignalEnum_def)
  ultimately show ?thesis by (simp add: mult.commute)
qed

theorem signal_catalogue_witness:
  "rule ONE_OVER_THREE 5 (Some 1) (Some 1) \<and> \<not> rule TWO_UNDER_TWO 5 (Some 1) (Some 1)
   \<and> rule EIGHT_OVER_MEAN 5 (Some 1) (Some 1) \<and> length SignalEnum = 8"
  using signal_catalogue [of 5 1 1] by simp

section \<open>Segmentation\<close>

text \<open>
  The processes partition a series of \<open>n\<close> points: they start at index 0, each
  process starts right after the previous one ends, processes are in increasing order and
  do not overlap, the last one ends at the last index, and every index of the series is
  in exactly one process.
\<close>

definition partitions :: "nat \<Rightarrow> process list \<Rightarrow> bool" where
  "partitions n ps \<longleftrightarrow>
     ps \<noteq> [] \<and> startIndex (ps ! 0) = 0
     \<and> (\<forall>i. Suc i < length ps \<longrightarrow> startIndex (ps ! Suc i) = endIndex (ps ! i) + 1)
     \<and> (\<forall>i j. i < j \<and> j < length ps \<longrightarrow>
           startIndex (ps ! i) \<le> endIndex (ps ! i) \<and> endIndex (ps ! i) < startIndex (ps ! j))
     \<and> endIndex (last ps) = int n - 1
     \<and> (\<forall>x. 0 \<le> x \<and> x < int n \<longrightarrow>
           (\<exists>!i. i < length ps \<and> startIndex (ps ! i) \<le> x \<and> x \<le> endIndex (ps ! i)))"

lemma bounds_proj [simp]:
  "fst (bounds p) = startIndex p" "fst (snd (bounds p)) = endIndex p"
  "snd (snd (bounds p)) = cap p"
  by (simp_all add: bounds_def)

lemma nth_bounds:
  "i < length ps \<Longrightarrow> bS (map bounds ps ! i) = startIndex (ps ! i)"
  "i < length ps \<Longrightarrow> bE (map bounds ps ! i) = endIndex (ps ! i)"
  "i < length ps \<Longrightarrow> bC (map bounds ps ! i) = cap (ps ! i)"
  by (simp_all add: bounds_def)

lemma seg_final_partitions:
  assumes fin: "seg_final (int n) (map bounds ps)"
  shows "partitions n ps"
  unfolding partitions_def
proof (intro conjI allI impI)
  from fin show ne: "ps \<noteq> []" by (auto simp: seg_final_def)
  from fin ne show "startIndex (ps ! 0) = 0" by (simp add: seg_final_def nth_bounds)
  from fin ne show "endIndex (last ps) = int n - 1"
    by (simp add: seg_final_def last_map bounds_def)
next
  fix i assume "Suc i < length ps"
  with fin show "startIndex (ps ! Suc i) = endIndex (ps ! i) + 1"
    by (simp add: seg_final_def nth_bounds)
next
  fix i j assume ij: "i < j \<and> j < length ps"
  with seg_final_mono [OF fin, of i j] show "endIndex (ps ! i) < startIndex (ps ! j)"
    by (simp add: nth_bounds)
  from ij have "Suc i < length (map bounds ps)" by simp
  with fin have "bS (map bounds ps ! i) \<le> bE (map bounds ps ! i)"
    unfolding seg_final_def by blast
  with ij show "startIndex (ps ! i) \<le> endIndex (ps ! i)" by (simp add: nth_bounds)
next
  fix x assume "0 \<le> x \<and> x < int n"
  with seg_final_cover [OF fin, of x]
  have "\<exists>!i. i < length (map bounds ps) \<and> bS (map bounds ps ! i) \<le> x \<and> x \<le> bE (map bounds ps ! i)"
    by simp
  then show "\<exists>!i. i < length ps \<and> startIndex (ps ! i) \<le> x \<and> x \<le> endIndex (ps ! i)"
    by (simp add: nth_bounds cong: conj_cong)
qed

lemma seg_inv_nonneg:
  assumes "seg_inv n a (map bounds ps) k"
  shows "\<forall>p \<in> set ps. 0 \<le> startIndex p"
proof
  fix p assume "p \<in> set ps"
  then obtain i where i: "i < length ps" "p = ps ! i" by (auto simp: in_set_conv_nth)
  with assms have "0 \<le> bS (map bounds ps ! i)" by (simp add: seg_inv_def)
  with i show "0 \<le> startIndex p" by (simp add: nth_bounds)
qed

lemma calculateSignals_partitions:
  assumes "seg_inv (int (length data)) a (map bounds ps) 0"
  shows "\<exists>R. calculateSignals data ps 0 a until excl = Inr R \<and> partitions (length data) R"
proof -
  from assms have "0 < length ps" by (simp add: seg_inv_def)
  from calculateSignals_Inr [OF this seg_inv_nonneg [OF assms]] obtain R where
    R: "calculateSignals data ps 0 a until excl = Inr R" by blast
  from calculateSignals_seg_final [OF R assms] have "partitions (length data) R"
    by (rule seg_final_partitions)
  with R show ?thesis by blast
qed

lemma displayChart_seg_inv:
  assumes "autoDetectProcess props \<or> manual_ok n (manualProcesses props)"
  shows "seg_inv (int n) (autoDetectProcess (configureProperties props))
           (map bounds
              (if length (manualProcesses (configureProperties props)) = 0
                  \<or> autoDetectProcess (configureProperties props)
               then createProcess [] 0 (-1)
               else manualLoop (manualProcesses (configureProperties props)) n 0 [])) 0"
proof (cases "length (manualProcesses props) = 0 \<or> autoDetectProcess props")
  case True
  then show ?thesis by (auto simp: configureProperties_def seg_inv_single)
next
  case False
  with assms have ok: "manual_ok n (manualProcesses props)" by simp
  let ?ms = "sort (manualProcesses props)"
  from False have "length ?ms \<noteq> 0" by simp
  then have ne: "?ms \<noteq> []" by (simp del: length_sort)
  from ok have "sorted ?ms" "distinct ?ms" by (simp_all add: manual_ok_def)
  then have st: "sorted_wrt (<) ?ms" by (simp add: strict_sorted_iff)
  from ok have rng: "\<forall>p \<in> set ?ms. 0 < p \<and> p \<le> int n - 1" by (auto simp: manual_ok_def)
  have "manual_inv (int n) (map bounds []) 0" by (simp add: manual_inv_def)
  from manualLoop_seg_inv [OF ne st rng _ this] False show ?thesis
    by (simp add: configureProperties_def)
qed

text \<open>
  C1, as amended. \<open>getSignals\<close> always returns processes that partition the series, and so
  does the segmentation of \<open>displayChart\<close> under automatic detection, without manual break
  points, or with manual break points that are distinct indices of the series after its
  first index.
\<close>

theorem segmentation_partitions:
  "(\<exists>ps. getSignals data props = Inr ps \<and> partitions (length data) ps)
   \<and> (autoDetectProcess props \<or> manual_ok (length data) (manualProcesses props) \<longrightarrow>
        (\<exists>ps. displayChart data props = Inr ps \<and> partitions (length data) ps))"
proof (intro conjI impI)
  show "\<exists>ps. getSignals data props = Inr ps \<and> partitions (length data) ps"
    unfolding getSignals_def Let_def
    by (rule calculateSignals_partitions) (rule seg_inv_single)
next
  assume "autoDetectProcess props \<or> manual_ok (length data) (manualProcesses props)"
  then have "autoDetectProcess props \<or> manual_ok (length (sort_key Date data)) (manualProcesses props)"
    by simp
  from calculateSignals_partitions [OF displayChart_seg_inv [OF this]]
  show "\<exists>ps. displayChart data props = Inr ps \<and> partitions (length data) ps"
    unfolding displayChart_def Let_def by simp
qed

text \<open>An instance: three points with manual break points at indices 2 and 1.\<close>

theorem segmentation_partitions_witness:
  "manual_ok 3 [2, 1]
   \<and> (\<exists>ps. displayChart
         [\<lparr>Date = 10, Count = 5\<rparr>, \<lparr>Date = 20, Count = 7\<rparr>, \<lparr>Date = 30, Count = 6\<rparr>]
         \<lparr>manualProcesses = [2, 1], autoDetectProcess = False, autoDetectUntil = 30,
          datesToExclude = {}\<rparr> = Inr ps \<and> partitions 3 ps)"
  using segmentation_partitions
    [of "[\<lparr>Date = 10, Count = 5\<rparr>, \<lparr>Date = 20, Count = 7\<rparr>, \<lparr>Date = 30, Count = 6\<rparr>]"
        "\<lparr>manualProcesses = [2, 1], autoDetectProcess = False, autoDetectUntil = 30,
          datesToExclude = {}\<rparr>"]
  by (simp add: manual_ok_def numeral_3_eq_3)

text \<open>The equations that evaluate the segmentation on a concrete series.\<close>

lemmas eval_simps =
  displayChart_def getSignals_def configureProperties_def createProcess_def
  calculateSignals.simps whileLoop.simps pointsLoop.simps summaryLoop.simps
  summaryStatistics_def isEmpty_def slice_def mean_def sd_def d3_mean_def d3_deviation_def
  d3_variance_def SignalEnum_def initTracker_def incrementSignal_def clearSignal_def
  addSignalToTracker_def bounds_def Let_def

text \<open>
  Without the condition on the break points the processes need not partition the series:
  on one point with a manual break point at index 0, \<open>createProcess\<close> takes the cap
  \<open>0 - 1\<close> of the first process for "no cap", and both processes end up covering
  index 0.
\<close>

theorem segmentation_partitions_counterexample:
  "map_sum id (map bounds)
     (displayChart [\<lparr>Date = 10, Count = 5\<rparr>]
        \<lparr>manualProcesses = [0], autoDetectProcess = False, autoDetectUntil = 10,
         datesToExclude = {}\<rparr>)
   = Inr [(0, 0, -1), (0, 0, 0)]"
  by (simp add: eval_simps)

subsection \<open>Without automatic detection\<close>

lemma whileLoop_found_auto:
  assumes "whileLoop data excl k a until (ps, tr, False) = Inr (ps', tr', True)"
  shows "a"
  using whileLoop_bounds [OF assms] by simp

lemma calculateSignals_no_auto:
  assumes "calculateSignals data ps k False until excl = Inr R"
  shows "map startIndex R = map startIndex ps"
  using assms
proof (induction ps k rule: calculateSignals_induct2 [where data = data and excl = excl and a = False and until = until])
  case (step ps k)
  from step.prems show ?case
  proof (cases rule: calculateSignals_cases)
    case (1 ps1 tr1 f sigs')
    let ?ps0 = "ps[k := pre_process data (ps ! k)]"
    let ?ps2 = "ps1[k := (ps1 ! k)\<lparr>signals := sigs'\<rparr>]"
    from 1(2) have nf: "\<not> f" using whileLoop_found_auto by (cases f) auto
    have st0: "map startIndex ?ps0 = map startIndex ps"
      by (rule map_startIndex_update) simp
    have st2: "map startIndex ?ps2 = map startIndex ps1"
      by (rule map_startIndex_update) simp
    from whileLoop_starts [OF 1(2)] nf st0 st2 have st: "map startIndex ?ps2 = map startIndex ps"
      by simp
    show ?thesis
    proof (cases "Suc k < length ps1")
      case True
      with 1(4) step.IH [OF 1(1,2,3)] st show ?thesis by simp
    next
      case False
      with 1(4) nf st show ?thesis by simp
    qed
  qed
qed

lemma getSignals_no_auto:
  assumes "\<not> autoDetectProcess props"
  shows "\<exists>p. getSignals data props = Inr [p] \<and> startIndex p = 0
           \<and> endIndex p = int (length data) - 1"
proof -
  let ?ps0 = "createProcess [] 0 (-1)"
  from calculateSignals_partitions [OF seg_inv_single] obtain R where
    R: "calculateSignals data ?ps0 0 (autoDetectProcess props) (autoDetectUntil props)
          (datesToExclude props) = Inr R"
    and part: "partitions (length data) R" by blast
  from R assms have "map startIndex R = map startIndex ?ps0"
    using calculateSignals_no_auto by simp
  then have "length (map startIndex R) = length (map startIndex ?ps0)" by simp
  then have "length R = 1" by simp
  then obtain p where p: "R = [p]" by (cases R) auto
  with part have "startIndex p = 0" "endIndex p = int (length data) - 1"
    by (simp_all add: partitions_def)
  with R p show ?thesis
    by (auto simp: getSignals_def Let_def configureProperties_def)
qed

text \<open>
  C10. \<open>getSignals\<close> starts from the one process that \<open>createProcess(processes, 0)\<close> builds,
  whatever \<open>manualProcesses\<close> and \<open>autoDetectProcess\<close> are: its result does not depend on the
  manual break points, and without automatic detection it is exactly one process from
  index 0 to the last index of the series.
\<close>

theorem getSignals_single_initial_process:
  "getSignals data props =
     calculateSignals data
       [\<lparr>startIndex = 0, endIndex = 8, cap = -1, pmean = None, psd = None, signals = Map.empty\<rparr>]
       0 (autoDetectProcess props) (autoDetectUntil props) (datesToExclude props)
   \<and> getSignals data (props\<lparr>manualProcesses := ms\<rparr>) = getSignals data props
   \<and> (\<not> autoDetectProcess props \<longrightarrow>
        (\<exists>p. getSignals data (props\<lparr>manualProcesses := ms\<rparr>) = Inr [p] \<and> startIndex p = 0
           \<and> endIndex p = int (length data) - 1))"
proof (intro conjI impI)
  show "getSignals data props =
     calculateSignals data
       [\<lparr>startIndex = 0, endIndex = 8, cap = -1, pmean = None, psd = None, signals = Map.empty\<rparr>]
       0 (autoDetectProcess props) (autoDetectUntil props) (datesToExclude props)"
    by (simp add: getSignals_def configureProperties_def createProcess_def)
  show "getSignals data (props\<lparr>manualProcesses := ms\<rparr>) = getSignals data props"
    by (simp add: getSignals_def configureProperties_def)
  assume "\<not> autoDetectProcess props"
  then have "\<not> autoDetectProcess (props\<lparr>manualProcesses := ms\<rparr>)" by simp
  from getSignals_no_auto [OF this]
  show "\<exists>p. getSignals data (props\<lparr>manualProcesses := ms\<rparr>) = Inr [p] \<and> startIndex p = 0
           \<and> endIndex p = int (length data) - 1" .
qed

text \<open>
  An instance, with the contrast the claim draws: on three points with a manual break
  point at index 1 and no automatic detection, \<open>getSignals\<close> returns one process from 0 to
  2, and the segmentation of \<open>displayChart\<close> two processes.
\<close>

theorem getSignals_single_initial_process_witness:
  "(\<exists>p. getSignals
          [\<lparr>Date = 10, Count = 5\<rparr>, \<lparr>Date = 20, Count = 5\<rparr>, \<lparr>Date = 30, Count = 5\<rparr>]
          \<lparr>manualProcesses = [1], autoDetectProcess = False, autoDetectUntil = 30,
           datesToExclude = {}\<rparr> = Inr [p] \<and> startIndex p = 0 \<and> endIndex p = 2)
   \<and> map_sum id (map bounds)
        (displayChart
          [\<lparr>Date = 10, Count = 5\<rparr>, \<lparr>Date = 20, Count = 5\<rparr>, \<lparr>Date = 30, Count = 5\<rparr>]
          \<lparr>manualProcesses = [1], autoDetectProcess = False, autoDetectUntil = 30,
           datesToExclude = {}\<rparr>)
      = Inr [(0, 0, 0), (1, 2, 2)]"
proof
  show "\<exists>p. getSignals
          [\<lparr>Date = 10, Count = 5\<rparr>, \<lparr>Date = 20, Count = 5\<rparr>, \<lparr>Date = 30, Count = 5\<rparr>]
          \<lparr>manualProcesses = [1], autoDetectProcess = False, autoDetectUntil = 30,
           datesToExclude = {}\<rparr> = Inr [p] \<and> startIndex p = 0 \<and> endIndex p = 2"
    using getSignals_single_initial_process
      [of "[\<lparr>Date = 10, Count = 5\<rparr>, \<lparr>Date = 20, Count = 5\<rparr>, \<lparr>Date = 30, Count = 5\<rparr>]"
          "\<lparr>manualProcesses = [1], autoDetectProcess = False, autoDetectUntil = 30,
           datesToExclude = {}\<rparr>" "[1]", THEN conjunct2, THEN conjunct2]
    by simp
  show "map_sum id (map bounds)
        (displayChart
          [\<lparr>Date = 10, Count = 5\<rparr>, \<lparr>Date = 20, Count = 5\<rparr>, \<lparr>Date = 30, Count = 5\<rparr>]
          \<lparr>manualProcesses = [1], autoDetectProcess = False, autoDetectUntil = 30,
           datesToExclude = {}\<rparr>)
      = Inr [(0, 0, 0), (1, 2, 2)]"
    by (simp add: eval_simps)
qed

subsection \<open>When a process is created\<close>

lemma incrementSignal_found_run:
  "incrementSignal tr sg idt ps j a until = Inr (tr', ps', True)
     \<Longrightarrow> (sg = EIGHT_OVER_MEAN \<or> sg = EIGHT_UNDER_MEAN)
         \<and> (\<exists>run. tr' sg = Some run \<and> length run = sig_length sg \<and> last run = idt)"
  by (auto simp: incrementSignal_def Let_def split: option.splits if_splits)

lemma rulesLoop_found_run:
  "rulesLoop sgs d k j a until (ps, tr) = Inr (ps', tr', True)
     \<Longrightarrow> \<exists>sg run. (sg = EIGHT_OVER_MEAN \<or> sg = EIGHT_UNDER_MEAN) \<and> sg \<in> set sgs
           \<and> rule sg (Count d) (pmean (ps ! k)) (psd (ps ! k))
           \<and> tr' sg = Some run \<and> length run = sig_length sg \<and> last run = Date d"
proof (induction sgs arbitrary: ps tr)
  case Nil
  then show ?case by simp
next
  case (Cons sg rest)
  show ?case
  proof (cases "rule sg (Count d) (pmean (ps ! k)) (psd (ps ! k))")
    case True
    with Cons.prems obtain tr1 ps1 f1 where
      inc: "incrementSignal tr sg (Date d) ps j
              (if j = startIndex (ps ! k) then False else a) until = Inr (tr1, ps1, f1)"
      and rest: "if f1 then ps' = ps1 \<and> tr' = tr1
                 else rulesLoop rest d k j a until (ps1, tr1) = Inr (ps', tr', True)"
      by (auto split: sum.splits if_splits)
    show ?thesis
    proof (cases f1)
      case f1: True
      with inc have "incrementSignal tr sg (Date d) ps j
              (if j = startIndex (ps ! k) then False else a) until = Inr (tr1, ps1, True)"
        by simp
      from incrementSignal_found_run [OF this] f1 rest True show ?thesis by auto
    next
      case False
      with inc have "incrementSignal tr sg (Date d) ps j
              (if j = startIndex (ps ! k) then False else a) until = Inr (tr1, ps1, False)"
        by simp
      then have "ps1 = ps" by (rule incrementSignal_not_found)
      with False rest Cons.IH [of ps1 tr1] show ?thesis by auto
    qed
  next
    case False
    with Cons.prems obtain sigs1 tr1 where
      rest: "rulesLoop rest d k j a until
               (ps[k := (ps ! k)\<lparr>signals := sigs1\<rparr>], tr1) = Inr (ps', tr', True)"
      by (auto split: sum.splits)
    from Cons.IH [OF rest] show ?thesis by (auto simp: upd_signals_nth)
  qed
qed

lemma rulesLoop_length:
  assumes "rulesLoop sgs d k j a until (ps, tr) = Inr (ps', tr', f)"
  shows "length ps' = (if f then Suc (length ps) else length ps)"
proof (cases f)
  case True
  with assms rulesLoop_found [of sgs d k j a until ps tr ps' tr'] show ?thesis by auto
next
  case False
  with assms rulesLoop_not_found [of sgs d k j a until ps tr ps' tr'] show ?thesis by auto
qed

lemma sort_key_eq_Nil [simp]: "sort_key f xs = [] \<longleftrightarrow> xs = []"
  by (metis length_sort length_0_conv)


















subsection \<open>Termination and the number of processes\<close>

lemma seg_final_start_ge:
  assumes "seg_final n bs" and "i < length bs"
  shows "int i \<le> bS (bs ! i)"
  using assms(2)
proof (induction i)
  case 0
  with assms(1) show ?case by (simp add: seg_final_def)
next
  case (Suc i)
  from assms(1) Suc.prems have "bS (bs ! Suc i) = bE (bs ! i) + 1" "bS (bs ! i) \<le> bE (bs ! i)"
    by (auto simp: seg_final_def)
  with Suc.IH Suc.prems show ?case by simp
qed

lemma seg_final_length:
  assumes "seg_final (int n) bs"
  shows "length bs \<le> max 1 n"
proof -
  from assms have ne: "bs \<noteq> []" by (simp add: seg_final_def)
  then have l: "length bs - 1 < length bs" by simp
  from seg_final_start_ge [OF assms l] have "int (length bs - 1) \<le> bS (bs ! (length bs - 1))" .
  moreover from assms l have "bS (bs ! (length bs - 1)) \<le> max 0 (int n - 1)"
    unfolding seg_final_def by blast
  ultimately show ?thesis by (auto simp: max_def split: if_splits)
qed

lemma calculateSignals_count:
  assumes "seg_inv (int (length data)) a (map bounds ps) 0"
  shows "\<exists>R. calculateSignals data ps 0 a until excl = Inr R \<and> length R \<le> max 1 (length data)"
proof -
  from assms have "0 < length ps" by (simp add: seg_inv_def)
  from calculateSignals_Inr [OF this seg_inv_nonneg [OF assms]] obtain R where
    R: "calculateSignals data ps 0 a until excl = Inr R" by blast
  from seg_final_length [OF calculateSignals_seg_final [OF R assms]] R show ?thesis by simp
qed

lemma whileLoop_iteration:
  assumes len: "k < length ps" and g: "guard data (ps ! k)"
    and pl: "pointsLoop data excl k a until (endIndex (ps ! k) + 1)
               (ps[k := body_process (ps ! k) st], initTracker) = Inr (ps1, tr1, False)"
  shows "endIndex (ps1 ! k) = endIndex (ps ! k) + 1
         \<and> endIndex (ps1 ! k) \<le> int (length data) - 1
         \<and> cap (ps1 ! k) = cap (ps ! k)
         \<and> (cap (ps1 ! k) = -1 \<or> endIndex (ps1 ! k) \<le> cap (ps1 ! k))"
proof -
  let ?ps2 = "ps[k := body_process (ps ! k) st]"
  from pointsLoop_not_found [OF pl] obtain sigs' where
    "ps1 = ?ps2[k := (?ps2 ! k)\<lparr>signals := sigs'\<rparr>]" by blast
  with len have "endIndex (ps1 ! k) = endIndex (ps ! k) + 1" "cap (ps1 ! k) = cap (ps ! k)"
    by (simp_all add: body_process_def)
  with g show ?thesis by (auto simp: guard_def)
qed

lemma whileLoop_iterate:
  assumes len: "k < length ps" and s0: "0 \<le> startIndex (ps ! k)"
    and g: "endIndex (ps ! k) < int (length data) - 1"
    and c: "cap (ps ! k) = -1 \<or> endIndex (ps ! k) < cap (ps ! k)"
  shows "\<exists>st ps1 tr1 f1.
      summaryStatistics data excl (startIndex (ps ! k)) (endIndex (ps ! k) + 1) = Inr st
      \<and> pointsLoop data excl k a until (endIndex (ps ! k) + 1)
          (ps[k := (ps ! k)\<lparr>endIndex := endIndex (ps ! k) + 1, signals := Map.empty,
                            pmean := smean st, psd := ssd st\<rparr>], initTracker)
          = Inr (ps1, tr1, f1)
      \<and> (if f1
          then \<exists>ps2. whileLoop data excl k a until (ps, tr, False) = Inr (ps2, tr1, True)
                 \<and> length ps2 = Suc (length ps)
          else whileLoop data excl k a until (ps, tr, False)
                 = whileLoop data excl k a until (ps1, tr1, False)
               \<and> length ps1 = length ps
               \<and> startIndex (ps1 ! k) = startIndex (ps ! k)
               \<and> cap (ps1 ! k) = cap (ps ! k)
               \<and> endIndex (ps1 ! k) = endIndex (ps ! k) + 1
               \<and> endIndex (ps1 ! k) \<le> int (length data) - 1
               \<and> (cap (ps1 ! k) = -1 \<or> endIndex (ps1 ! k) \<le> cap (ps1 ! k)))"
proof -
  let ?e = "endIndex (ps ! k) + 1"
  from g c have gd: "guard data (ps ! k)" by (simp add: guard_def)
  from g have e: "?e < int (length data)" by simp
  from summaryStatistics_Inr [OF s0 e] obtain st where
    st: "summaryStatistics data excl (startIndex (ps ! k)) ?e = Inr st" by blast
  let ?ps2 = "ps[k := body_process (ps ! k) st]"
  from len s0 have s2: "0 \<le> startIndex (?ps2 ! k)" by (simp add: body_process_def)
  from pointsLoop_Inr [OF tr_full_initTracker s2 e] obtain ps1 tr1 f1 where
    pl: "pointsLoop data excl k a until ?e (?ps2, initTracker) = Inr (ps1, tr1, f1)"
    by blast
  have rest: "if f1
          then \<exists>ps2. whileLoop data excl k a until (ps, tr, False) = Inr (ps2, tr1, True)
                 \<and> length ps2 = Suc (length ps)
          else whileLoop data excl k a until (ps, tr, False)
                 = whileLoop data excl k a until (ps1, tr1, False)
               \<and> length ps1 = length ps
               \<and> startIndex (ps1 ! k) = startIndex (ps ! k)
               \<and> cap (ps1 ! k) = cap (ps ! k)
               \<and> endIndex (ps1 ! k) = endIndex (ps ! k) + 1
               \<and> endIndex (ps1 ! k) \<le> int (length data) - 1
               \<and> (cap (ps1 ! k) = -1 \<or> endIndex (ps1 ! k) \<le> cap (ps1 ! k))"
  proof (cases f1)
    case f1: True
    with pl have pl': "pointsLoop data excl k a until ?e (?ps2, initTracker) = Inr (ps1, tr1, True)"
      by simp
    from pointsLoop_found [OF pl']
    obtain j sigs' where j: "j \<le> ?e"
      and ps1: "ps1 = createProcess (?ps2[k := (?ps2 ! k)\<lparr>signals := sigs'\<rparr>]) j (-1)"
      by blast
    let ?ps3 = "?ps2[k := (?ps2 ! k)\<lparr>signals := sigs'\<rparr>]"
    have len3: "k < length ?ps3" using len by simp
    from createProcess_nth [OF len3, of j "-1"] ps1 len s0 j e
    have "0 \<le> startIndex (ps1 ! k)" "endIndex (ps1 ! k) < int (length data)"
      by (auto simp: body_process_def split: if_splits)
    from summaryStatistics_Inr [OF this] obtain st' where
      st': "summaryStatistics data excl (startIndex (ps1 ! k)) (endIndex (ps1 ! k)) = Inr st'"
      by blast
    from ps1 len have l1: "k < length ps1" "length ps1 = Suc (length ps)" by simp_all
    with st pl f1 st' show ?thesis
      by (auto simp: whileLoop_unfold [OF len gd] whileLoop_True)
  next
    case f1: False
    with pl have pl': "pointsLoop data excl k a until ?e (?ps2, initTracker) = Inr (ps1, tr1, False)"
      by simp
    from pointsLoop_not_found [OF pl'] obtain sigs' where
      ps1: "ps1 = ?ps2[k := (?ps2 ! k)\<lparr>signals := sigs'\<rparr>]" by blast
    with len have p1: "length ps1 = length ps" "startIndex (ps1 ! k) = startIndex (ps ! k)"
      "cap (ps1 ! k) = cap (ps ! k)" "endIndex (ps1 ! k) = ?e"
      by (simp_all add: body_process_def)
    from st pl' have "whileLoop data excl k a until (ps, tr, False)
                 = whileLoop data excl k a until (ps1, tr1, False)"
      by (simp add: whileLoop_unfold [OF len gd])
    with p1 g c f1 show ?thesis by auto
  qed
  from st pl rest show ?thesis
    unfolding body_process_def by blast
qed

lemma whileLoop_result:
  assumes w: "whileLoop data excl k a until (ps, tr, False) = Inr (ps', tr', f')"
  shows "if f' then
           a \<and> length ps' = Suc (length ps)
           \<and> (\<exists>j. startIndex (ps ! k) < j \<and> j < int (length data)
                 \<and> map startIndex ps' = map startIndex ps @ [j])
         else
           length ps' = length ps
           \<and> startIndex (ps' ! k) = startIndex (ps ! k) \<and> cap (ps' ! k) = cap (ps ! k)
           \<and> endIndex (ps ! k) \<le> endIndex (ps' ! k)
           \<and> \<not> (endIndex (ps' ! k) < int (length data) - 1
                  \<and> (cap (ps' ! k) = -1 \<or> endIndex (ps' ! k) < cap (ps' ! k)))
           \<and> (endIndex (ps' ! k) = endIndex (ps ! k)
                \<or> endIndex (ps' ! k) \<le> int (length data) - 1
                  \<and> (cap (ps' ! k) = -1 \<or> endIndex (ps' ! k) \<le> cap (ps' ! k)))"
proof (cases f')
  case True
  with whileLoop_bounds [OF w] whileLoop_starts [OF w] whileLoop_length [OF w]
  show ?thesis by auto
next
  case False
  from w have len: "k < length ps" by (rule whileLoop_range)
  from whileLoop_length [OF w] False have l: "length ps' = length ps" by simp
  from whileLoop_bounds [OF w] False obtain e where
    e: "endIndex (ps ! k) \<le> e"
      "\<not> (e < int (length data) - 1 \<and> (cap (ps ! k) = -1 \<or> e < cap (ps ! k)))"
      "e = endIndex (ps ! k) \<or> e < int (length data) \<and> (cap (ps ! k) = -1 \<or> e \<le> cap (ps ! k))"
      "map bounds ps' = setEnd (map bounds ps) k e" by auto
  from e(4) have "map bounds ps' ! k = setEnd (map bounds ps) k e ! k" by simp
  with len l have "bounds (ps' ! k) = (startIndex (ps ! k), e, cap (ps ! k))"
    by (simp add: nth_setEnd)
  then have "startIndex (ps' ! k) = startIndex (ps ! k)" "endIndex (ps' ! k) = e"
    "cap (ps' ! k) = cap (ps ! k)" by (simp_all add: bounds_def)
  with e l False show ?thesis by auto
qed

text \<open>
  C9. The loops are total functions, by the measures of their termination proofs; as
  statements about the \<open>while\<close> loop of the code: it stops at once when the end index of
  the current process has reached the last index of the series or the cap; otherwise it
  computes the statistics and scans from the next end index, and either the scan creates a
  process and the loop ends, or the loop continues from a state whose current process has
  the same start and cap and an end index one higher, at most the last index of the series
  and at most the cap. When the loop returns without a new process the end index has not
  decreased, is within these bounds if it moved, and the condition of the loop is false; a
  process that it creates starts after the start of the current process and inside the
  series. The loop and the recursion over the processes return for processes that start
  inside the series, and \<open>getSignals\<close>, as well as \<open>displayChart\<close> under automatic detection
  or with manual break points that are distinct indices after the first, returns at most
  as many processes as the series has points (one process for the empty series).
\<close>

theorem segmentation_terminates:
  "(k < length ps
      \<and> \<not> (endIndex (ps ! k) < int (length data) - 1
             \<and> (cap (ps ! k) = -1 \<or> endIndex (ps ! k) < cap (ps ! k))) \<longrightarrow>
        whileLoop data excl k a until (ps, tr, False) = Inr (ps, tr, False))
   \<and> (k < length ps \<and> 0 \<le> startIndex (ps ! k)
      \<and> endIndex (ps ! k) < int (length data) - 1
      \<and> (cap (ps ! k) = -1 \<or> endIndex (ps ! k) < cap (ps ! k)) \<longrightarrow>
        (\<exists>st ps1 tr1 f1.
           summaryStatistics data excl (startIndex (ps ! k)) (endIndex (ps ! k) + 1) = Inr st
           \<and> pointsLoop data excl k a until (endIndex (ps ! k) + 1)
               (ps[k := (ps ! k)\<lparr>endIndex := endIndex (ps ! k) + 1, signals := Map.empty,
                                 pmean := smean st, psd := ssd st\<rparr>], initTracker)
               = Inr (ps1, tr1, f1)
           \<and> (if f1
               then \<exists>ps2. whileLoop data excl k a until (ps, tr, False) = Inr (ps2, tr1, True)
                      \<and> length ps2 = Suc (length ps)
               else whileLoop data excl k a until (ps, tr, False)
                      = whileLoop data excl k a until (ps1, tr1, False)
                    \<and> length ps1 = length ps
                    \<and> startIndex (ps1 ! k) = startIndex (ps ! k)
                    \<and> cap (ps1 ! k) = cap (ps ! k)
                    \<and> endIndex (ps1 ! k) = endIndex (ps ! k) + 1
                    \<and> endIndex (ps1 ! k) \<le> int (length data) - 1
                    \<and> (cap (ps1 ! k) = -1 \<or> endIndex (ps1 ! k) \<le> cap (ps1 ! k)))))
   \<and> (whileLoop data excl k a until (ps, tr, False) = Inr (ps', tr', f') \<longrightarrow>
        (if f' then
           a \<and> length ps' = Suc (length ps)
           \<and> (\<exists>j. startIndex (ps ! k) < j \<and> j < int (length data)
                 \<and> map startIndex ps' = map startIndex ps @ [j])
         else
           length ps' = length ps
           \<and> startIndex (ps' ! k) = startIndex (ps ! k) \<and> cap (ps' ! k) = cap (ps ! k)
           \<and> endIndex (ps ! k) \<le> endIndex (ps' ! k)
           \<and> \<not> (endIndex (ps' ! k) < int (length data) - 1
                  \<and> (cap (ps' ! k) = -1 \<or> endIndex (ps' ! k) < cap (ps' ! k)))
           \<and> (endIndex (ps' ! k) = endIndex (ps ! k)
                \<or> endIndex (ps' ! k) \<le> int (length data) - 1
                  \<and> (cap (ps' ! k) = -1 \<or> endIndex (ps' ! k) \<le> cap (ps' ! k)))))
   \<and> (k < length ps \<and> 0 \<le> startIndex (ps ! k) \<longrightarrow>
        (\<exists>ps' tr' f'. whileLoop data excl k a until (ps, tr, False) = Inr (ps', tr', f')))
   \<and> (k < length ps \<and> (\<forall>p \<in> set ps. 0 \<le> startIndex p) \<longrightarrow>
        (\<exists>R. calculateSignals data ps k a until excl = Inr R))
   \<and> (\<exists>R. getSignals data props = Inr R \<and> length R \<le> max 1 (length data))
   \<and> (autoDetectProcess props \<or> manual_ok (length data) (manualProcesses props) \<longrightarrow>
        (\<exists>R. displayChart data props = Inr R \<and> length R \<le> max 1 (length data)))"
proof (intro conjI impI)
  assume "k < length ps
      \<and> \<not> (endIndex (ps ! k) < int (length data) - 1
             \<and> (cap (ps ! k) = -1 \<or> endIndex (ps ! k) < cap (ps ! k)))"
  then show "whileLoop data excl k a until (ps, tr, False) = Inr (ps, tr, False)"
    by (intro whileLoop_exit) (simp_all add: guard_def)
next
  assume "k < length ps \<and> 0 \<le> startIndex (ps ! k)
      \<and> endIndex (ps ! k) < int (length data) - 1
      \<and> (cap (ps ! k) = -1 \<or> endIndex (ps ! k) < cap (ps ! k))"
  then have "k < length ps" "0 \<le> startIndex (ps ! k)"
    "endIndex (ps ! k) < int (length data) - 1"
    "cap (ps ! k) = -1 \<or> endIndex (ps ! k) < cap (ps ! k)" by blast+
  then show "\<exists>st ps1 tr1 f1.
           summaryStatistics data excl (startIndex (ps ! k)) (endIndex (ps ! k) + 1) = Inr st
           \<and> pointsLoop data excl k a until (endIndex (ps ! k) + 1)
               (ps[k := (ps ! k)\<lparr>endIndex := endIndex (ps ! k) + 1, signals := Map.empty,
                                 pmean := smean st, psd := ssd st\<rparr>], initTracker)
               = Inr (ps1, tr1, f1)
           \<and> (if f1
               then \<exists>ps2. whileLoop data excl k a until (ps, tr, False) = Inr (ps2, tr1, True)
                      \<and> length ps2 = Suc (length ps)
               else whileLoop data excl k a until (ps, tr, False)
                      = whileLoop data excl k a until (ps1, tr1, False)
                    \<and> length ps1 = length ps
                    \<and> startIndex (ps1 ! k) = startIndex (ps ! k)
                    \<and> cap (ps1 ! k) = cap (ps ! k)
                    \<and> endIndex (ps1 ! k) = endIndex (ps ! k) + 1
                    \<and> endIndex (ps1 ! k) \<le> int (length data) - 1
                    \<and> (cap (ps1 ! k) = -1 \<or> endIndex (ps1 ! k) \<le> cap (ps1 ! k)))"
    by (rule whileLoop_iterate)
next
  assume "whileLoop data excl k a until (ps, tr, False) = Inr (ps', tr', f')"
  then show "if f' then
           a \<and> length ps' = Suc (length ps)
           \<and> (\<exists>j. startIndex (ps ! k) < j \<and> j < int (length data)
                 \<and> map startIndex ps' = map startIndex ps @ [j])
         else
           length ps' = length ps
           \<and> startIndex (ps' ! k) = startIndex (ps ! k) \<and> cap (ps' ! k) = cap (ps ! k)
           \<and> endIndex (ps ! k) \<le> endIndex (ps' ! k)
           \<and> \<not> (endIndex (ps' ! k) < int (length data) - 1
                  \<and> (cap (ps' ! k) = -1 \<or> endIndex (ps' ! k) < cap (ps' ! k)))
           \<and> (endIndex (ps' ! k) = endIndex (ps ! k)
                \<or> endIndex (ps' ! k) \<le> int (length data) - 1
                  \<and> (cap (ps' ! k) = -1 \<or> endIndex (ps' ! k) \<le> cap (ps' ! k)))"
    by (rule whileLoop_result)
next
  assume "k < length ps \<and> 0 \<le> startIndex (ps ! k)"
  then show "\<exists>ps' tr' f'. whileLoop data excl k a until (ps, tr, False) = Inr (ps', tr', f')"
    using whileLoop_Inr by blast
next
  assume "k < length ps \<and> (\<forall>p \<in> set ps. 0 \<le> startIndex p)"
  then show "\<exists>R. calculateSignals data ps k a until excl = Inr R"
    using calculateSignals_Inr by blast
next
  show "\<exists>R. getSignals data props = Inr R \<and> length R \<le> max 1 (length data)"
    unfolding getSignals_def Let_def
    by (rule calculateSignals_count) (rule seg_inv_single)
next
  assume "autoDetectProcess props \<or> manual_ok (length data) (manualProcesses props)"
  then have "autoDetectProcess props \<or> manual_ok (length (sort_key Date data)) (manualProcesses props)"
    by simp
  from calculateSignals_count [OF displayChart_seg_inv [OF this]]
  show "\<exists>R. displayChart data props = Inr R \<and> length R \<le> max 1 (length data)"
    unfolding displayChart_def Let_def by simp
qed

text \<open>
  Instances on two points: from end index 0 the loop continues from a state with end index
  1; at end index 1, the last index, it stops at once; \<open>getSignals\<close> returns at most two
  processes.
\<close>

theorem segmentation_terminates_witness:
  "(0 :: nat) < length [\<lparr>startIndex = 0, endIndex = 0, cap = -1, pmean = None, psd = None,
                         signals = Map.empty :: int \<rightharpoonup> signal\<rparr>]
   \<and> (\<exists>ps1 tr1.
        whileLoop [\<lparr>Date = 10, Count = 5\<rparr>, \<lparr>Date = 20, Count = 5\<rparr>] {} 0 True 20
          ([\<lparr>startIndex = 0, endIndex = 0, cap = -1, pmean = None, psd = None,
             signals = Map.empty\<rparr>], Map.empty, False)
        = whileLoop [\<lparr>Date = 10, Count = 5\<rparr>, \<lparr>Date = 20, Count = 5\<rparr>] {} 0 True 20
            (ps1, tr1, False)
        \<and> endIndex (ps1 ! 0) = 1)
   \<and> whileLoop [\<lparr>Date = 10, Count = 5\<rparr>, \<lparr>Date = 20, Count = 5\<rparr>] {} 0 True 20
        ([\<lparr>startIndex = 0, endIndex = 1, cap = -1, pmean = None, psd = None,
           signals = Map.empty\<rparr>], Map.empty, False)
      = Inr ([\<lparr>startIndex = 0, endIndex = 1, cap = -1, pmean = None, psd = None,
           signals = Map.empty\<rparr>], Map.empty, False)
   \<and> (\<exists>R. getSignals [\<lparr>Date = 10, Count = 5\<rparr>, \<lparr>Date = 20, Count = 5\<rparr>]
          \<lparr>manualProcesses = [], autoDetectProcess = True, autoDetectUntil = 20,
           datesToExclude = {}\<rparr> = Inr R \<and> length R \<le> 2)"
proof -
  let ?data = "[\<lparr>Date = 10, Count = 5\<rparr>, \<lparr>Date = 20, Count = 5\<rparr>]"
  let ?p = "\<lparr>startIndex = 0, endIndex = 0, cap = -1, pmean = None, psd = None,
             signals = Map.empty :: int \<rightharpoonup> signal\<rparr>"
  let ?q = "\<lparr>startIndex = 0, endIndex = 1, cap = -1, pmean = None, psd = None,
             signals = Map.empty :: int \<rightharpoonup> signal\<rparr>"
  from segmentation_terminates [THEN conjunct2, THEN conjunct1, rule_format,
      where k = 0 and ps = "[?p]" and data = ?data and excl = "{}" and a = True and until = 20
        and tr = Map.empty]
  obtain st ps1 tr1 f1 where
    st: "summaryStatistics ?data {} 0 1 = Inr st"
    and pl: "pointsLoop ?data {} 0 True 20 1
               ([?p\<lparr>endIndex := 1, signals := Map.empty, pmean := smean st, psd := ssd st\<rparr>],
                initTracker) = Inr (ps1, tr1, f1)"
    and r: "if f1 then True
            else whileLoop ?data {} 0 True 20 ([?p], Map.empty, False)
                   = whileLoop ?data {} 0 True 20 (ps1, tr1, False)
                 \<and> endIndex (ps1 ! 0) = 1"
    by (auto split: if_splits)
  from st have "st = \<lparr>smean = Some 5, ssd = Some 0\<rparr>" by (simp add: eval_simps)
  with pl have "\<not> f1" by (simp add: eval_simps)
  with r have 1: "\<exists>ps1 tr1. whileLoop ?data {} 0 True 20 ([?p], Map.empty, False)
                   = whileLoop ?data {} 0 True 20 (ps1, tr1, False)
                 \<and> endIndex (ps1 ! 0) = 1" by auto
  from segmentation_terminates [THEN conjunct1, rule_format,
      where k = 0 and ps = "[?q]" and data = ?data and excl = "{}" and a = True and until = 20
        and tr = Map.empty]
  have 2: "whileLoop ?data {} 0 True 20 ([?q], Map.empty, False) = Inr ([?q], Map.empty, False)"
    by simp
  from segmentation_terminates [THEN conjunct2, THEN conjunct2, THEN conjunct2, THEN conjunct2,
      THEN conjunct2, THEN conjunct1,
      of ?data "\<lparr>manualProcesses = [], autoDetectProcess = True, autoDetectUntil = 20,
           datesToExclude = {}\<rparr>"]
  have 3: "\<exists>R. getSignals ?data
          \<lparr>manualProcesses = [], autoDetectProcess = True, autoDetectUntil = 20,
           datesToExclude = {}\<rparr> = Inr R \<and> length R \<le> 2" by (simp add: numeral_2_eq_2)
  from 1 2 3 show ?thesis by simp
qed

section \<open>Summary statistics\<close>

lemma slice_Cons:
  assumes "0 \<le> i" "i < e" "e \<le> int (length xs)"
  shows "slice xs i e = xs ! nat i # slice xs (i + 1) e"
proof -
  from assms have 1: "nat i < length xs" by simp
  from assms have 2: "nat (e - i) = Suc (nat (e - (i + 1)))" by simp
  from assms have 3: "nat (i + 1) = Suc (nat i)" by simp
  from assms show ?thesis
    by (simp add: slice_def Let_def min_def 2 3 Cons_nth_drop_Suc [OF 1, symmetric])
qed

lemma slice_empty: "e \<le> i \<Longrightarrow> 0 \<le> e \<Longrightarrow> slice xs i e = []"
  by (auto simp: slice_def Let_def min_def)

lemma summaryLoop_eq:
  "0 \<le> i \<Longrightarrow> e \<le> int (length data) \<Longrightarrow>
   summaryLoop data excl i e tmp st =
     Inr (if i < e
          then \<lparr>smean = mean (tmp @ filter (\<lambda>p. Date p \<notin> excl) (slice data i e)),
                ssd = sd (tmp @ filter (\<lambda>p. Date p \<notin> excl) (slice data i e))\<rparr>
          else st)"
proof (induction data excl i e tmp st rule: summaryLoop.induct)
  case (1 data excl i e tmp st)
  show ?case
  proof (cases "i < e")
    case False
    then show ?thesis by (simp add: summaryLoop.simps)
  next
    case True
    with "1.prems" have inr: "\<not> (i < 0 \<or> int (length data) \<le> i)" by simp
    let ?tmp' = "if Date (data ! nat i) \<notin> excl then tmp @ [data ! nat i] else tmp"
    from "1.prems" have "0 \<le> i + 1" by simp
    note IH = "1.IH" [OF True inr refl this "1.prems"(2)]
    have sl: "slice data i e = data ! nat i # slice data (i + 1) e"
      using "1.prems" True by (intro slice_Cons) simp_all
    have e: "\<not> i + 1 < e \<Longrightarrow> slice data (i + 1) e = []"
      using "1.prems" True by (intro slice_empty) simp_all
    show ?thesis
      by (subst summaryLoop.simps) (use True inr IH sl e in \<open>auto simp: Let_def\<close>)
  qed
qed

lemma slice_nth:
  assumes "0 \<le> s" "s \<le> e" "e < int (length xs)"
  shows "slice xs s (e + 1) = map ((!) xs) [nat s..<Suc (nat e)]"
proof -
  define k m where "k = nat s" and "m = Suc (nat e) - nat s"
  from assms have n: "nat (e + 1 - s) = m" "k + m \<le> length xs" "Suc (nat e) = k + m"
    by (simp_all add: k_def m_def)
  from assms n have sl: "slice xs s (e + 1) = take m (drop k xs)"
    by (simp add: slice_def Let_def min_def k_def)
  have "take m (drop k xs) = map ((!) xs) [k..<k + m]"
  proof (rule nth_equalityI)
    from n(2) show "length (take m (drop k xs)) = length (map ((!) xs) [k..<k + m])"
      by simp
  next
    fix i assume "i < length (take m (drop k xs))"
    then have i: "i < m" by simp
    with n(2) have "take m (drop k xs) ! i = xs ! (k + i)" by simp
    moreover from i have "map ((!) xs) [k..<k + m] ! i = xs ! (k + i)" by simp
    ultimately show "take m (drop k xs) ! i = map ((!) xs) [k..<k + m] ! i" by simp
  qed
  with sl n(3) show ?thesis by (simp only: k_def)
qed

lemma summaryStatistics_eq:
  assumes "0 \<le> s" "s \<le> e" "e < int (length data)"
  shows "summaryStatistics data excl s e =
           Inr \<lparr>smean = mean (filter (\<lambda>p. Date p \<notin> excl) (slice data s (e + 1))),
                ssd = sd (filter (\<lambda>p. Date p \<notin> excl) (slice data s (e + 1)))\<rparr>"
proof (cases "excl = {}")
  case True
  then show ?thesis by (simp add: summaryStatistics_def isEmpty_def Let_def)
next
  case False
  from assms have "0 \<le> s" "e + 1 \<le> int (length data)" "s < e + 1" by simp_all
  with summaryLoop_eq [of s "e + 1" data excl "[]"] False show ?thesis
    by (simp add: summaryStatistics_def isEmpty_def Let_def)
qed

text \<open>
  C6. For an index range \<open>[start, end]\<close> inside the series, \<open>summaryStatistics\<close> returns the
  mean and the standard deviation of the points of the range whose timestamp is not
  excluded, in the order of the series: with at least two such points the arithmetic mean
  and the square root of the sum of squared deviations over \<open>n - 1\<close>; with none, an
  undefined mean and standard deviation. The function only reads the series (the model
  returns nothing else than the statistics). The range is not empty here: on an empty
  range with excluded dates the source returns the initial \<open>{mean: 0, sd: 0}\<close>.
\<close>

theorem summaryStatistics_sample_formulas:
  assumes "0 \<le> start" and "start \<le> end'" and "end' < int (length data)"
    and "pts = filter (\<lambda>p. Date p \<notin> excl) (map ((!) data) [nat start..<Suc (nat end')])"
    and "xs = map Count pts"
  shows "summaryStatistics data excl start end' = Inr \<lparr>smean = mean pts, ssd = sd pts\<rparr>
    \<and> (2 \<le> length xs \<longrightarrow>
         mean pts = Some (sum_list xs / real (length xs))
         \<and> sd pts = Some (sqrt ((\<Sum>x\<leftarrow>xs. (x - sum_list xs / real (length xs))\<^sup>2)
                                 / (real (length xs) - 1))))
    \<and> (length xs = 0 \<longrightarrow> mean pts = None \<and> sd pts = None)"
proof (intro conjI impI)
  from assms show "summaryStatistics data excl start end' = Inr \<lparr>smean = mean pts, ssd = sd pts\<rparr>"
    by (simp add: summaryStatistics_eq slice_nth)
next
  assume 2: "2 \<le> length xs"
  then have "xs \<noteq> []" by auto
  with assms(5) show "mean pts = Some (sum_list xs / real (length xs))"
    by (simp add: mean_def d3_mean_def)
  from 2 have "real (length xs - 1) = real (length xs) - 1" by (simp add: of_nat_diff)
  with 2 assms(5) show "sd pts = Some (sqrt ((\<Sum>x\<leftarrow>xs. (x - sum_list xs / real (length xs))\<^sup>2)
                                 / (real (length xs) - 1)))"
    by (simp add: sd_def d3_deviation_def d3_variance_def)
next
  assume "length xs = 0"
  with assms(5) show "mean pts = None" "sd pts = None"
    by (simp_all add: mean_def sd_def d3_mean_def d3_deviation_def d3_variance_def)
qed

text \<open>
  An instance: of four points, the second excluded, the range from 0 to 3 has mean 4 and
  standard deviation 2 (values 2, 4, 6; squared deviations 4, 0, 4 over 2).
\<close>

theorem summaryStatistics_sample_formulas_witness:
  "summaryStatistics
     [\<lparr>Date = 1, Count = 2\<rparr>, \<lparr>Date = 2, Count = 100\<rparr>, \<lparr>Date = 3, Count = 4\<rparr>,
      \<lparr>Date = 4, Count = 6\<rparr>] {2} 0 3
   = Inr \<lparr>smean = Some 4, ssd = Some 2\<rparr>"
proof -
  let ?data = "[\<lparr>Date = 1, Count = 2\<rparr>, \<lparr>Date = 2, Count = 100\<rparr>, \<lparr>Date = 3, Count = 4\<rparr>,
      \<lparr>Date = 4, Count = 6\<rparr>]"
  let ?pts = "[\<lparr>Date = 1, Count = 2\<rparr>, \<lparr>Date = 3, Count = 4\<rparr>, \<lparr>Date = 4, Count = 6\<rparr>]"
  have u: "[nat 0..<Suc (nat 3)] = [0, 1, 2, 3]" by (simp add: upt_rec)
  have p: "?pts = filter (\<lambda>p. Date p \<notin> {2}) (map ((!) ?data) [nat 0..<Suc (nat 3)])"
    unfolding u by simp
  have x: "[2, 4, 6 :: real] = map Count ?pts" by simp
  have s: "sqrt ((\<Sum>x\<leftarrow>[2, 4, 6 :: real]. (x - sum_list [2, 4, 6] / real (length [2, 4, 6 :: real]))\<^sup>2)
                 / (real (length [2, 4, 6 :: real]) - 1)) = 2"
    by (simp add: power2_eq_square)
  from summaryStatistics_sample_formulas [of 0 3 ?data ?pts "{2}" "[2, 4, 6]", OF _ _ _ p x] s
  show ?thesis by simp
qed

section \<open>Excluded points\<close>

text \<open>No run of the tracker holds an excluded timestamp; no process has a signal for one.\<close>

definition tr_ok :: "int set \<Rightarrow> tracker \<Rightarrow> bool" where
  "tr_ok excl tr \<longleftrightarrow> (\<forall>sg run. tr sg = Some run \<longrightarrow> set run \<inter> excl = {})"

definition sg_ok :: "int set \<Rightarrow> process list \<Rightarrow> bool" where
  "sg_ok excl ps \<longleftrightarrow> (\<forall>p \<in> set ps. dom (signals p) \<inter> excl = {})"

lemma sg_ok_update:
  "sg_ok excl ps \<Longrightarrow> dom (signals q) \<inter> excl = {} \<Longrightarrow> sg_ok excl (ps[k := q])"
  unfolding sg_ok_def using set_update_subset_insert [of ps k q] by auto

lemma sg_ok_nth: "sg_ok excl ps \<Longrightarrow> k < length ps \<Longrightarrow> dom (signals (ps ! k)) \<inter> excl = {}"
  by (simp add: sg_ok_def)

lemma sg_ok_createProcess: "sg_ok excl ps \<Longrightarrow> sg_ok excl (createProcess ps j c)"
proof -
  assume ok: "sg_ok excl ps"
  let ?new = "\<lparr>startIndex = j, endIndex = (if c > -1 \<and> j + int (sig_length EIGHT_OVER_MEAN) > c
                  then c else j + int (sig_length EIGHT_OVER_MEAN)),
               cap = c, pmean = None, psd = None, signals = Map.empty\<rparr>"
  from ok have 1: "sg_ok excl (ps @ [?new])" by (auto simp: sg_ok_def)
  have "sg_ok excl ((ps @ [?new])[length (ps @ [?new]) - 2
           := ((ps @ [?new]) ! (length (ps @ [?new]) - 2))\<lparr>endIndex := j - 1\<rparr>])"
  proof (rule sg_ok_update [OF 1])
    show "dom (signals (((ps @ [?new]) ! (length (ps @ [?new]) - 2))\<lparr>endIndex := j - 1\<rparr>)) \<inter> excl = {}"
    proof (cases "ps = []")
      case True
      then show ?thesis by simp
    next
      case False
      then have "length (ps @ [?new]) - 2 < length (ps @ [?new])" by simp
      from sg_ok_nth [OF 1 this] show ?thesis by simp
    qed
  qed
  with 1 show ?thesis
    by (cases "ps = []") (simp_all add: createProcess_def Let_def sg_ok_def del: sig_length.simps)
qed

lemma fold_signals_dom:
  "dom (fold (\<lambda>d sg. (case sg d of None \<Rightarrow> sg(d \<mapsto> v)
                       | Some r \<Rightarrow> if sig_length v < sig_length r then sg(d \<mapsto> v) else sg))
          run sigs) \<subseteq> dom sigs \<union> set run"
proof (induction run arbitrary: sigs)
  case Nil
  show ?case by simp
next
  case (Cons d run)
  let ?s1 = "case sigs d of None \<Rightarrow> sigs(d \<mapsto> v)
             | Some r \<Rightarrow> if sig_length v < sig_length r then sigs(d \<mapsto> v) else sigs"
  have "dom ?s1 \<subseteq> insert d (dom sigs)" by (auto split: option.splits if_splits)
  with Cons.IH [of ?s1] show ?case by auto
qed

lemma addSignalToTracker_ok:
  assumes "addSignalToTracker sigs tr sg = Inr sigs'" and "tr_ok excl tr"
    and "dom sigs \<inter> excl = {}"
  shows "dom sigs' \<inter> excl = {}"
proof -
  from assms(1) obtain run where run: "tr sg = Some run"
    by (auto simp: addSignalToTracker_def split: option.splits)
  with assms(2) have r: "set run \<inter> excl = {}" by (simp add: tr_ok_def)
  from assms(1) run have "dom sigs' \<subseteq> dom sigs \<union> set run"
    using fold_signals_dom [of sg run sigs]
    by (auto simp: addSignalToTracker_def split: if_splits)
  with r assms(3) show ?thesis by blast
qed

lemma clearSignal_ok:
  assumes "clearSignal sigs tr sg = Inr (sigs', tr')" and "tr_ok excl tr"
    and "dom sigs \<inter> excl = {}"
  shows "dom sigs' \<inter> excl = {} \<and> tr_ok excl tr'"
proof -
  from assms(1) have a: "addSignalToTracker sigs tr sg = Inr sigs'" and t: "tr' = tr(sg \<mapsto> [])"
    by (auto simp: clearSignal_def split: sum.splits)
  from addSignalToTracker_ok [OF a assms(2,3)] t assms(2) show ?thesis
    by (auto simp: tr_ok_def)
qed

lemma incrementSignal_ok:
  assumes "incrementSignal tr sg idt ps j a until = Inr (tr', ps', f)" and "tr_ok excl tr"
    and "sg_ok excl ps" and "idt \<notin> excl"
  shows "tr_ok excl tr' \<and> sg_ok excl ps'"
proof -
  from assms(1) obtain run where run: "tr sg = Some run" and t: "tr' = tr(sg \<mapsto> run @ [idt])"
    and p: "ps' = ps \<or> ps' = createProcess ps j (-1)"
    by (auto simp: incrementSignal_def Let_def split: option.splits if_splits)
  from run assms(2) have "set run \<inter> excl = {}" by (simp add: tr_ok_def)
  with t assms(2,4) have "tr_ok excl tr'" by (auto simp: tr_ok_def)
  moreover from p assms(3) have "sg_ok excl ps'" by (auto intro: sg_ok_createProcess)
  ultimately show ?thesis by simp
qed

lemma rulesLoop_ok:
  "rulesLoop sgs d k j a until (ps, tr) = Inr (ps', tr', f) \<Longrightarrow> Date d \<notin> excl
     \<Longrightarrow> k < length ps \<Longrightarrow> tr_ok excl tr \<Longrightarrow> sg_ok excl ps \<Longrightarrow> tr_ok excl tr' \<and> sg_ok excl ps'"
proof (induction sgs arbitrary: ps tr)
  case Nil
  then show ?case by simp
next
  case (Cons sg rest)
  show ?case
  proof (cases "rule sg (Count d) (pmean (ps ! k)) (psd (ps ! k))")
    case True
    with Cons.prems(1) obtain tr1 ps1 f1 where
      inc: "incrementSignal tr sg (Date d) ps j
              (if j = startIndex (ps ! k) then False else a) until = Inr (tr1, ps1, f1)"
      and rest: "if f1 then ps' = ps1 \<and> tr' = tr1
                 else rulesLoop rest d k j a until (ps1, tr1) = Inr (ps', tr', f)"
      by (auto split: sum.splits if_splits)
    from incrementSignal_ok [OF inc Cons.prems(4,5,2)] have ok1: "tr_ok excl tr1" "sg_ok excl ps1"
      by simp_all
    show ?thesis
    proof (cases f1)
      case True
      with rest ok1 show ?thesis by simp
    next
      case False
      with inc have "incrementSignal tr sg (Date d) ps j
              (if j = startIndex (ps ! k) then False else a) until = Inr (tr1, ps1, False)" by simp
      then have "ps1 = ps" by (rule incrementSignal_not_found)
      with False rest Cons.IH [of ps1 tr1] Cons.prems ok1 show ?thesis by simp
    qed
  next
    case False
    with Cons.prems(1) obtain sigs1 tr1 where
      c: "clearSignal (signals (ps ! k)) tr sg = Inr (sigs1, tr1)"
      and rest: "rulesLoop rest d k j a until
               (ps[k := (ps ! k)\<lparr>signals := sigs1\<rparr>], tr1) = Inr (ps', tr', f)"
      by (auto split: sum.splits)
    from clearSignal_ok [OF c Cons.prems(4) sg_ok_nth [OF Cons.prems(5,3)]]
    have ok1: "dom sigs1 \<inter> excl = {}" "tr_ok excl tr1" by simp_all
    from ok1(1) Cons.prems(5) have "sg_ok excl (ps[k := (ps ! k)\<lparr>signals := sigs1\<rparr>])"
      by (intro sg_ok_update) simp_all
    with Cons.IH [OF rest Cons.prems(2) _ ok1(2)] Cons.prems(3) show ?thesis by simp
  qed
qed

lemma pointsLoop_ok:
  "pointsLoop data excl k a until j (ps, tr) = Inr (ps', tr', f)
     \<Longrightarrow> k < length ps \<Longrightarrow> tr_ok excl tr \<Longrightarrow> sg_ok excl ps \<Longrightarrow> tr_ok excl tr' \<and> sg_ok excl ps'"
proof (induction data excl k a until j "(ps, tr)" arbitrary: ps tr rule: pointsLoop.induct)
  case (1 data excl k a until j ps tr)
  note prems = "1.prems"(1) [unfolded pointsLoop.simps [of data excl k a until j ps tr]]
  show ?case
  proof (cases "j \<ge> startIndex (ps ! k)")
    case False
    with prems "1.prems" show ?thesis by simp
  next
    case True
    with prems have inr: "\<not> (j < 0 \<or> int (length data) \<le> j)"
      by (auto split: if_splits)
    show ?thesis
    proof (cases "Date (data ! nat j) \<notin> excl")
      case False
      with True inr prems have "pointsLoop data excl k a until (j - 1) (ps, tr) = Inr (ps', tr', f)"
        by simp
      from "1.hyps"(2) [OF True inr False this "1.prems"(2,3,4)] show ?thesis .
    next
      case ex: True
      with True inr prems obtain ps1 tr1 f1 where
        r: "rulesLoop SignalEnum (data ! nat j) k j a until (ps, tr) = Inr (ps1, tr1, f1)"
        and rest: "if f1 then ps' = ps1 \<and> tr' = tr1 \<and> f
                   else pointsLoop data excl k a until (j - 1) (ps1, tr1) = Inr (ps', tr', f)"
        by (auto split: sum.splits if_splits)
      from rulesLoop_ok [OF r ex "1.prems"(2,3,4)] have ok1: "tr_ok excl tr1" "sg_ok excl ps1"
        by simp_all
      show ?thesis
      proof (cases f1)
        case True
        with rest ok1 show ?thesis by simp
      next
        case False
        with r have r': "rulesLoop SignalEnum (data ! nat j) k j a until (ps, tr) = Inr (ps1, tr1, False)"
          by simp
        from rulesLoop_length [OF r'] "1.prems"(2) have len1: "k < length ps1" by simp
        from False rest have "pointsLoop data excl k a until (j - 1) (ps1, tr1) = Inr (ps', tr', f)"
          by simp
        from "1.hyps"(1) [OF True inr ex r' refl refl _ this len1 ok1] show ?thesis by simp
      qed
    qed
  qed
qed


lemma tr_ok_initTracker: "tr_ok excl initTracker"
  by (simp add: tr_ok_def initTracker_Some)

lemma tr_ok_empty: "tr_ok excl Map.empty"
  by (simp add: tr_ok_def)

lemma whileLoop_ok:
  assumes "whileLoop data excl k a until (ps, tr, False) = Inr (ps', tr', f')"
    and "tr_ok excl tr" and "sg_ok excl ps"
  shows "tr_ok excl tr' \<and> sg_ok excl ps'"
  using assms
proof (induction "nat (int (length data) - endIndex (ps ! k))" arbitrary: ps tr rule: less_induct)
  case less
  from less.prems(1) have len: "k < length ps" by (rule whileLoop_range)
  show ?case
  proof (cases "guard data (ps ! k)")
    case False
    with len less.prems show ?thesis by (simp add: whileLoop_exit)
  next
    case True
    from True less.prems(1) show ?thesis
    proof (cases rule: whileLoop_step)
      case (found st ps1 tr1 st')
      let ?ps2 = "ps[k := body_process (ps ! k) st]"
      have ok2: "sg_ok excl ?ps2"
        by (rule sg_ok_update [OF less.prems(3)]) (simp add: body_process_def)
      from len have len2: "k < length ?ps2" by simp
      from pointsLoop_ok [OF found(2) len2 tr_ok_initTracker ok2]
      have ok1: "tr_ok excl tr1" "sg_ok excl ps1" by simp_all
      from pointsLoop_found [OF found(2)] len have "k < length ps1" by auto
      from sg_ok_nth [OF ok1(2) this]
      have "sg_ok excl (ps1[k := (ps1 ! k)\<lparr>pmean := smean st', psd := ssd st'\<rparr>])"
        by (intro sg_ok_update [OF ok1(2)]) simp
      with found(4) ok1 show ?thesis by simp
    next
      case (continue st ps1 tr1)
      let ?ps2 = "ps[k := body_process (ps ! k) st]"
      have ok2: "sg_ok excl ?ps2"
        by (rule sg_ok_update [OF less.prems(3)]) (simp add: body_process_def)
      from len have len2: "k < length ?ps2" by simp
      from pointsLoop_ok [OF continue(2) len2 tr_ok_initTracker ok2]
      have ok1: "tr_ok excl tr1" "sg_ok excl ps1" by simp_all
      from whileLoop_iteration [OF len True continue(2)] True
      have "nat (int (length data) - endIndex (ps1 ! k))
          < nat (int (length data) - endIndex (ps ! k))"
        by (auto simp: guard_def)
      from less.hyps [OF this continue(3) ok1] show ?thesis .
    qed
  qed
qed

lemma flushLoop_ok:
  "flushLoop sgs sigs tr = Inr sigs' \<Longrightarrow> tr_ok excl tr \<Longrightarrow> dom sigs \<inter> excl = {}
     \<Longrightarrow> dom sigs' \<inter> excl = {}"
proof (induction sgs arbitrary: sigs)
  case Nil
  then show ?case by simp
next
  case (Cons v rest)
  show ?case
  proof (cases "tr v")
    case None
    with Cons show ?thesis by simp
  next
    case (Some run)
    with Cons.prems(1) obtain sigs1 where
      a: "addSignalToTracker sigs tr v = Inr sigs1" and r: "flushLoop rest sigs1 tr = Inr sigs'"
      by (auto split: sum.splits)
    from Cons.IH [OF r Cons.prems(2) addSignalToTracker_ok [OF a Cons.prems(2,3)]]
    show ?thesis .
  qed
qed

lemma calculateSignals_ok:
  assumes "calculateSignals data ps k a until excl = Inr R" and "sg_ok excl ps"
  shows "sg_ok excl R"
  using assms
proof (induction ps k rule: calculateSignals_induct2 [where data = data and excl = excl and a = a and until = until])
  case (step ps k)
  from step.prems(1) show ?case
  proof (cases rule: calculateSignals_cases)
    case (1 ps1 tr1 f sigs')
    let ?ps0 = "ps[k := pre_process data (ps ! k)]"
    let ?ps2 = "ps1[k := (ps1 ! k)\<lparr>signals := sigs'\<rparr>]"
    have ok0: "sg_ok excl ?ps0"
      by (rule sg_ok_update [OF step.prems(2)]) (simp add: pre_process_def)
    from whileLoop_ok [OF 1(2) tr_ok_empty ok0] have ok1: "tr_ok excl tr1" "sg_ok excl ps1"
      by simp_all
    from whileLoop_length [OF 1(2)] 1(1) have len1: "k < length ps1" by (auto split: if_splits)
    from flushLoop_ok [OF 1(3) ok1(1) sg_ok_nth [OF ok1(2) len1]]
    have ok2: "sg_ok excl ?ps2" by (intro sg_ok_update [OF ok1(2)]) simp
    show ?thesis
    proof (cases "f \<or> Suc k < length ps1")
      case True
      with 1(4) step.IH [OF 1(1,2,3) True _ ok2] show ?thesis by simp
    next
      case False
      with 1(4) ok2 show ?thesis by simp
    qed
  qed
qed

lemma sg_ok_manualLoop: "sg_ok excl ps \<Longrightarrow> sg_ok excl (manualLoop ms n prev ps)"
  by (induction ms arbitrary: prev ps) (auto simp: Let_def intro: sg_ok_createProcess)

lemma sg_ok_Nil: "sg_ok excl []"
  by (simp add: sg_ok_def)

subsection \<open>A series whose every point is excluded\<close>

lemma pointsLoop_all_excluded:
  "\<forall>p \<in> set data. Date p \<in> excl \<Longrightarrow> 0 \<le> startIndex (ps ! k) \<Longrightarrow> j < int (length data)
     \<Longrightarrow> pointsLoop data excl k a until j (ps, tr) = Inr (ps, tr, False)"
proof (induction data excl k a until j "(ps, tr)" arbitrary: ps tr rule: pointsLoop.induct)
  case (1 data excl k a until j ps tr)
  show ?case
  proof (cases "j \<ge> startIndex (ps ! k)")
    case False
    then show ?thesis by (simp add: pointsLoop.simps)
  next
    case True
    with "1.prems" have inr: "\<not> (j < 0 \<or> int (length data) \<le> j)" by simp
    then have "nat j < length data" by linarith
    then have "data ! nat j \<in> set data" by (rule nth_mem)
    with "1.prems"(1) have ex: "\<not> Date (data ! nat j) \<notin> excl" by simp
    from "1.hyps"(2) [OF True inr ex "1.prems"(1,2)] "1.prems"(3)
    have "pointsLoop data excl k a until (j - 1) (ps, tr) = Inr (ps, tr, False)" by simp
    with True inr ex show ?thesis by (subst pointsLoop.simps) simp
  qed
qed

text \<open>Every point of the series from index \<open>s\<close> on is excluded.\<close>

definition excluded_from :: "point list \<Rightarrow> int set \<Rightarrow> int \<Rightarrow> bool" where
  "excluded_from data excl s \<longleftrightarrow>
     (\<forall>i. s \<le> i \<and> i < int (length data) \<longrightarrow> Date (data ! nat i) \<in> excl)"

lemma pointsLoop_excluded_from:
  "excluded_from data excl (startIndex (ps ! k)) \<Longrightarrow> 0 \<le> startIndex (ps ! k)
     \<Longrightarrow> j < int (length data)
     \<Longrightarrow> pointsLoop data excl k a until j (ps, tr) = Inr (ps, tr, False)"
proof (induction data excl k a until j "(ps, tr)" arbitrary: ps tr rule: pointsLoop.induct)
  case (1 data excl k a until j ps tr)
  show ?case
  proof (cases "j \<ge> startIndex (ps ! k)")
    case False
    then show ?thesis by (simp add: pointsLoop.simps)
  next
    case True
    with "1.prems" have inr: "\<not> (j < 0 \<or> int (length data) \<le> j)" by simp
    with True "1.prems"(1) have ex: "\<not> Date (data ! nat j) \<notin> excl"
      by (simp add: excluded_from_def)
    from "1.hyps"(2) [OF True inr ex "1.prems"(1,2)] "1.prems"(3)
    have "pointsLoop data excl k a until (j - 1) (ps, tr) = Inr (ps, tr, False)" by simp
    with True inr ex show ?thesis by (subst pointsLoop.simps) simp
  qed
qed

lemma summaryStatistics_excluded_from:
  assumes "excluded_from data excl s" and "0 \<le> s" "s \<le> e" "e < int (length data)"
  shows "summaryStatistics data excl s e = Inr \<lparr>smean = None, ssd = None\<rparr>"
proof -
  have "Date (data ! m) \<in> excl" if "nat s \<le> m" "m < Suc (nat e)" for m
  proof -
    from that assms have "s \<le> int m \<and> int m < int (length data)" by linarith
    with assms(1) have "Date (data ! nat (int m)) \<in> excl"
      unfolding excluded_from_def by blast
    then show ?thesis by simp
  qed
  then have "filter (\<lambda>p. Date p \<notin> excl) (map ((!) data) [nat s..<Suc (nat e)]) = []"
    by (auto simp: filter_empty_conv simp del: upt_Suc)
  with summaryStatistics_eq [OF assms(2,3,4), of excl] slice_nth [OF assms(2,3,4)] show ?thesis
    by (simp add: mean_def sd_def d3_mean_def d3_deviation_def d3_variance_def del: upt_Suc)
qed

text \<open>A tracker none of whose runs has a timestamp.\<close>

definition tr_idle :: "tracker \<Rightarrow> bool" where
  "tr_idle tr \<longleftrightarrow> (\<forall>sg. tr sg = None \<or> tr sg = Some [])"

lemma tr_idle_initTracker: "tr_idle initTracker"
  by (simp add: tr_idle_def initTracker_Some)

lemma tr_idle_empty: "tr_idle Map.empty"
  by (simp add: tr_idle_def)

lemma whileLoop_excluded_from:
  assumes "k < length ps" and "0 \<le> startIndex (ps ! k)"
    and "excluded_from data excl (startIndex (ps ! k))"
    and "signals (ps ! k) = Map.empty" and "tr_idle tr"
  shows "\<exists>ps' tr'. whileLoop data excl k a until (ps, tr, False) = Inr (ps', tr', False)
           \<and> signals (ps' ! k) = Map.empty \<and> tr_idle tr' \<and> length ps' = length ps
           \<and> (startIndex (ps ! k) \<le> endIndex (ps ! k) + 1 \<longrightarrow>
                (if guard data (ps ! k) then pmean (ps' ! k) = None \<and> psd (ps' ! k) = None
                 else ps' = ps))"
  using assms
proof (induction "nat (int (length data) - endIndex (ps ! k))" arbitrary: ps tr rule: less_induct)
  case less
  note len = less.prems(1) and s0 = less.prems(2) and ex = less.prems(3)
  show ?case
  proof (cases "guard data (ps ! k)")
    case False
    with len less.prems show ?thesis by (simp add: whileLoop_exit)
  next
    case True
    let ?e = "endIndex (ps ! k) + 1"
    from True have e: "?e < int (length data)" by (simp add: guard_def)
    from summaryStatistics_Inr [OF s0 e] obtain st where
      st: "summaryStatistics data excl (startIndex (ps ! k)) ?e = Inr st" by blast
    have st_none: "smean st = None \<and> ssd st = None" if "startIndex (ps ! k) \<le> ?e"
      using summaryStatistics_excluded_from [OF ex s0 that e] st by simp
    let ?ps2 = "ps[k := body_process (ps ! k) st]"
    from len s0 have p2: "k < length ?ps2" "0 \<le> startIndex (?ps2 ! k)"
      "signals (?ps2 ! k) = Map.empty" "endIndex (?ps2 ! k) = ?e"
      "startIndex (?ps2 ! k) = startIndex (ps ! k)"
      "pmean (?ps2 ! k) = smean st" "psd (?ps2 ! k) = ssd st"
      by (simp_all add: body_process_def)
    from ex p2(5) have ex2: "excluded_from data excl (startIndex (?ps2 ! k))" by simp
    from pointsLoop_excluded_from [OF ex2 p2(2) e]
    have pl: "pointsLoop data excl k a until ?e (?ps2, initTracker) = Inr (?ps2, initTracker, False)" .
    from True p2(4) have "nat (int (length data) - endIndex (?ps2 ! k))
        < nat (int (length data) - endIndex (ps ! k))"
      by (auto simp: guard_def)
    from less.hyps [OF this p2(1,2) ex2 p2(3) tr_idle_initTracker] obtain ps' tr' where
      w: "whileLoop data excl k a until (?ps2, initTracker, False) = Inr (ps', tr', False)"
      and r: "signals (ps' ! k) = Map.empty" "tr_idle tr'" "length ps' = length ?ps2"
        "startIndex (?ps2 ! k) \<le> endIndex (?ps2 ! k) + 1 \<longrightarrow>
                (if guard data (?ps2 ! k) then pmean (ps' ! k) = None \<and> psd (ps' ! k) = None
                 else ps' = ?ps2)"
      by blast
    from st pl w have w': "whileLoop data excl k a until (ps, tr, False) = Inr (ps', tr', False)"
      by (simp add: whileLoop_unfold [OF len True])
    have "pmean (ps' ! k) = None \<and> psd (ps' ! k) = None" if se: "startIndex (ps ! k) \<le> ?e"
    proof (cases "guard data (?ps2 ! k)")
      case True
      with r(4) se p2 show ?thesis by simp
    next
      case False
      with r(4) se p2 have "ps' = ?ps2" by simp
      with st_none [OF se] p2 show ?thesis by simp
    qed
    with w' r True show ?thesis by simp
  qed
qed

lemma sig_length_pos: "0 < sig_length sg"
  by (cases sg) simp_all

lemma flushLoop_idle: "tr_idle tr \<Longrightarrow> flushLoop sgs sigs tr = Inr sigs"
proof (induction sgs)
  case Nil
  show ?case by simp
next
  case (Cons v rest)
  from Cons.prems have "tr v = None \<or> tr v = Some []" by (simp add: tr_idle_def)
  with Cons show ?case
    using sig_length_pos [of v] by (auto simp: addSignalToTracker_def)
qed

lemma getSignals_all_excluded:
  assumes "\<forall>p \<in> set data. Date p \<in> datesToExclude props"
  shows "\<exists>p. getSignals data props = Inr [p] \<and> signals p = Map.empty \<and> startIndex p = 0
           \<and> endIndex p = int (length data) - 1
           \<and> (data \<noteq> [] \<longrightarrow> pmean p = None \<and> psd p = None)"
proof -
  let ?p0 = "\<lparr>startIndex = 0, endIndex = 8, cap = -1, pmean = None, psd = None,
              signals = Map.empty :: int \<rightharpoonup> signal\<rparr>"
  let ?excl = "datesToExclude props" and ?a = "autoDetectProcess props"
    and ?until = "autoDetectUntil props"
  let ?ps0 = "[?p0][0 := pre_process data ([?p0] ! 0)]"
  have c: "createProcess [] 0 (-1) = [?p0]" by (simp add: createProcess_def)
  have p0: "(0 :: nat) < length ?ps0" "0 \<le> startIndex (?ps0 ! 0)" "signals (?ps0 ! 0) = Map.empty"
    by (simp_all add: pre_process_def)
  have "excluded_from data ?excl (startIndex (?ps0 ! 0))"
    unfolding excluded_from_def
  proof (intro allI impI)
    fix i assume "startIndex (?ps0 ! 0) \<le> i \<and> i < int (length data)"
    then have "0 \<le> i \<and> i < int (length data)" by simp
    then have "nat i < length data" by linarith
    then have "data ! nat i \<in> set data" by (rule nth_mem)
    with assms show "Date (data ! nat i) \<in> ?excl" by simp
  qed
  from whileLoop_excluded_from [OF p0(1,2) this p0(3) tr_idle_empty] obtain ps' tr' where
    w: "whileLoop data ?excl 0 ?a ?until (?ps0, Map.empty, False) = Inr (ps', tr', False)"
    and r: "signals (ps' ! 0) = Map.empty" "tr_idle tr'" "length ps' = length ?ps0"
      "startIndex (?ps0 ! 0) \<le> endIndex (?ps0 ! 0) + 1 \<longrightarrow>
                (if guard data (?ps0 ! 0) then pmean (ps' ! 0) = None \<and> psd (ps' ! 0) = None
                 else ps' = ?ps0)"
    by blast
  from r(3) obtain p where p: "ps' = [p]" by (cases ps') auto
  have g: "guard data (?ps0 ! 0)" by (auto simp: guard_def)
  have se: "data \<noteq> [] \<Longrightarrow> startIndex (?ps0 ! 0) \<le> endIndex (?ps0 ! 0) + 1"
    by (cases data) auto
  from w r(1,2) p flushLoop_idle [OF r(2), of SignalEnum "signals (ps' ! 0)"]
  have res: "calculateSignals data [?p0] 0 ?a ?until ?excl = Inr [p]"
    by (subst calculateSignals_unfold) simp_all
  then have gs: "getSignals data props = Inr [p]"
    by (simp add: getSignals_def Let_def configureProperties_def c)
  from calculateSignals_partitions [OF seg_inv_single, of data ?a ?until ?excl] res c
  have "partitions (length data) [p]" by simp
  then have "startIndex p = 0" "endIndex p = int (length data) - 1"
    by (simp_all add: partitions_def)
  with gs r(1,4) p g se show ?thesis by auto
qed


lemma pointsLoop_found_run:
  "pointsLoop data excl k a until j (ps, tr) = Inr (ps', tr', True)
     \<Longrightarrow> \<exists>sg run. (sg = EIGHT_OVER_MEAN \<or> sg = EIGHT_UNDER_MEAN)
           \<and> tr' sg = Some run \<and> length run = sig_length sg"
proof (induction data excl k a until j "(ps, tr)" arbitrary: ps tr rule: pointsLoop.induct)
  case (1 data excl k a until j ps tr)
  note prems = "1.prems" [unfolded pointsLoop.simps [of data excl k a until j ps tr]]
  from prems have ge: "j \<ge> startIndex (ps ! k)"
    by (auto split: if_splits)
  with prems have inr: "\<not> (j < 0 \<or> int (length data) \<le> j)"
    by (auto split: if_splits)
  show ?case
  proof (cases "Date (data ! nat j) \<notin> excl")
    case False
    with ge inr prems have "pointsLoop data excl k a until (j - 1) (ps, tr) = Inr (ps', tr', True)"
      by simp
    from "1.hyps"(2) [OF ge inr False this] show ?thesis .
  next
    case ex: True
    with ge inr prems obtain ps1 tr1 f1 where
      r: "rulesLoop SignalEnum (data ! nat j) k j a until (ps, tr) = Inr (ps1, tr1, f1)"
      and rest: "if f1 then ps' = ps1 \<and> tr' = tr1
                 else pointsLoop data excl k a until (j - 1) (ps1, tr1) = Inr (ps', tr', True)"
      by (auto split: sum.splits if_splits)
    show ?thesis
    proof (cases f1)
      case True
      with r rest have "rulesLoop SignalEnum (data ! nat j) k j a until (ps, tr) = Inr (ps', tr', True)"
        by simp
      from rulesLoop_found_run [OF this] show ?thesis by blast
    next
      case False
      with r have r': "rulesLoop SignalEnum (data ! nat j) k j a until (ps, tr) = Inr (ps1, tr1, False)"
        by simp
      from False rest have
        "pointsLoop data excl k a until (j - 1) (ps1, tr1) = Inr (ps', tr', True)" by simp
      from "1.hyps"(1) [OF ge inr ex r' refl refl _ this] show ?thesis by simp
    qed
  qed
qed


text \<open>
  C7. No process returned by \<open>getSignals\<close> or by the segmentation of \<open>displayChart\<close> has a
  signal for an excluded timestamp. The scan never pushes an excluded timestamp on a run,
  so the run of eight timestamps that creates a process holds none. A process all of whose
  points from its start index on are excluded goes through its loop without an error,
  creates no process and is left without signals, also by the flush after the loop. When
  every point of the series is excluded, and so for the empty series, \<open>getSignals\<close> returns
  one process over the whole series without signals, with an undefined mean and standard
  deviation unless the series is empty.
\<close>

theorem excluded_points_never_signal:
  "((getSignals data props = Inr R \<or> displayChart data props = Inr R) \<longrightarrow>
      (\<forall>p \<in> set R. dom (signals p) \<inter> datesToExclude props = {}))
   \<and> (pointsLoop data excl k a until j (ps, tr) = Inr (ps', tr', f) \<and> k < length ps
        \<and> tr_ok excl tr \<and> sg_ok excl ps \<longrightarrow>
        tr_ok excl tr' \<and> sg_ok excl ps'
        \<and> (f \<longrightarrow> (\<exists>sg run. (sg = EIGHT_OVER_MEAN \<or> sg = EIGHT_UNDER_MEAN)
                      \<and> tr' sg = Some run \<and> length run = sig_length sg \<and> set run \<inter> excl = {})))
   \<and> (k < length ps \<and> 0 \<le> startIndex (ps ! k) \<and> excluded_from data excl (startIndex (ps ! k))
        \<and> signals (ps ! k) = Map.empty \<and> tr_idle tr \<longrightarrow>
        (\<exists>ps1 tr1. whileLoop data excl k a until (ps, tr, False) = Inr (ps1, tr1, False)
           \<and> length ps1 = length ps \<and> signals (ps1 ! k) = Map.empty
           \<and> flushLoop SignalEnum (signals (ps1 ! k)) tr1 = Inr Map.empty))
   \<and> ((\<forall>p \<in> set data. Date p \<in> datesToExclude props) \<longrightarrow>
        (\<exists>p. getSignals data props = Inr [p] \<and> signals p = Map.empty \<and> startIndex p = 0
           \<and> endIndex p = int (length data) - 1
           \<and> (data \<noteq> [] \<longrightarrow> pmean p = None \<and> psd p = None)))
   \<and> (\<exists>p. getSignals [] props = Inr [p] \<and> signals p = Map.empty \<and> endIndex p = -1)"
proof (intro conjI impI)
  assume "getSignals data props = Inr R \<or> displayChart data props = Inr R"
  then have "sg_ok (datesToExclude props) R"
  proof
    assume "getSignals data props = Inr R"
    then have "calculateSignals data (createProcess [] 0 (-1)) 0 (autoDetectProcess props)
        (autoDetectUntil props) (datesToExclude props) = Inr R"
      by (simp add: getSignals_def Let_def configureProperties_def)
    then show ?thesis
      by (rule calculateSignals_ok) (intro sg_ok_createProcess sg_ok_Nil)
  next
    assume "displayChart data props = Inr R"
    then have "calculateSignals (sort_key Date data)
        (if length (manualProcesses (configureProperties props)) = 0
            \<or> autoDetectProcess (configureProperties props)
         then createProcess [] 0 (-1)
         else manualLoop (manualProcesses (configureProperties props))
                (length (sort_key Date data)) 0 [])
        0 (autoDetectProcess (configureProperties props))
        (autoDetectUntil (configureProperties props))
        (datesToExclude (configureProperties props)) = Inr R"
      unfolding displayChart_def Let_def .
    then have "sg_ok (datesToExclude (configureProperties props)) R"
    proof (rule calculateSignals_ok)
      show "sg_ok (datesToExclude (configureProperties props))
        (if length (manualProcesses (configureProperties props)) = 0
            \<or> autoDetectProcess (configureProperties props)
         then createProcess [] 0 (-1)
         else manualLoop (manualProcesses (configureProperties props))
                (length (sort_key Date data)) 0 [])"
        by (auto intro: sg_ok_createProcess sg_ok_manualLoop sg_ok_Nil)
    qed
    then show ?thesis by (simp add: configureProperties_def)
  qed
  then show "\<forall>p \<in> set R. dom (signals p) \<inter> datesToExclude props = {}"
    by (simp add: sg_ok_def)
next
  assume h: "pointsLoop data excl k a until j (ps, tr) = Inr (ps', tr', f) \<and> k < length ps
        \<and> tr_ok excl tr \<and> sg_ok excl ps"
  then have ok: "tr_ok excl tr' \<and> sg_ok excl ps'"
    using pointsLoop_ok by blast
  then show "tr_ok excl tr'" "sg_ok excl ps'" by simp_all
  assume f
  with h have "pointsLoop data excl k a until j (ps, tr) = Inr (ps', tr', True)" by simp
  from pointsLoop_found_run [OF this] ok
  show "\<exists>sg run. (sg = EIGHT_OVER_MEAN \<or> sg = EIGHT_UNDER_MEAN)
          \<and> tr' sg = Some run \<and> length run = sig_length sg \<and> set run \<inter> excl = {}"
    unfolding tr_ok_def by blast
next
  assume h: "k < length ps \<and> 0 \<le> startIndex (ps ! k) \<and> excluded_from data excl (startIndex (ps ! k))
        \<and> signals (ps ! k) = Map.empty \<and> tr_idle tr"
  then obtain ps1 tr1 where
    w: "whileLoop data excl k a until (ps, tr, False) = Inr (ps1, tr1, False)"
    and r: "signals (ps1 ! k) = Map.empty" "tr_idle tr1" "length ps1 = length ps"
    using whileLoop_excluded_from [of k ps data excl tr a until] by blast
  from flushLoop_idle [OF r(2), of SignalEnum "signals (ps1 ! k)"] r(1)
  have "flushLoop SignalEnum (signals (ps1 ! k)) tr1 = Inr Map.empty" by simp
  with w r show "\<exists>ps1 tr1. whileLoop data excl k a until (ps, tr, False) = Inr (ps1, tr1, False)
           \<and> length ps1 = length ps \<and> signals (ps1 ! k) = Map.empty
           \<and> flushLoop SignalEnum (signals (ps1 ! k)) tr1 = Inr Map.empty" by blast
next
  assume "\<forall>p \<in> set data. Date p \<in> datesToExclude props"
  then show "\<exists>p. getSignals data props = Inr [p] \<and> signals p = Map.empty \<and> startIndex p = 0
           \<and> endIndex p = int (length data) - 1
           \<and> (data \<noteq> [] \<longrightarrow> pmean p = None \<and> psd p = None)"
    by (rule getSignals_all_excluded)
next
  from getSignals_all_excluded [of "[]" props]
  show "\<exists>p. getSignals [] props = Inr [p] \<and> signals p = Map.empty \<and> endIndex p = -1"
    by auto
qed

text \<open>
  Instances: two points, the second excluded, where the process has no signal; and two
  points, both excluded, where it has no signal and no mean either.
\<close>

theorem excluded_points_never_signal_witness:
  "getSignals [\<lparr>Date = 1, Count = 5\<rparr>, \<lparr>Date = 2, Count = 100\<rparr>]
      \<lparr>manualProcesses = [], autoDetectProcess = True, autoDetectUntil = 2,
       datesToExclude = {2}\<rparr>
     = Inr [\<lparr>startIndex = 0, endIndex = 1, cap = -1, pmean = Some 5, psd = None,
             signals = Map.empty\<rparr>]
   \<and> dom (signals \<lparr>startIndex = 0, endIndex = 1, cap = -1, pmean = Some 5, psd = None,
                    signals = Map.empty\<rparr>) \<inter> {2 :: int} = {}
   \<and> (\<exists>p. getSignals [\<lparr>Date = 1, Count = 5\<rparr>, \<lparr>Date = 2, Count = 100\<rparr>]
          \<lparr>manualProcesses = [], autoDetectProcess = True, autoDetectUntil = 2,
           datesToExclude = {1, 2}\<rparr> = Inr [p]
        \<and> signals p = Map.empty \<and> startIndex p = 0 \<and> endIndex p = 1
        \<and> pmean p = None \<and> psd p = None)"
proof -
  let ?data = "[\<lparr>Date = 1, Count = 5\<rparr>, \<lparr>Date = 2, Count = 100\<rparr>]"
  let ?R = "[\<lparr>startIndex = 0, endIndex = 1, cap = -1, pmean = Some 5, psd = None,
             signals = Map.empty :: int \<rightharpoonup> signal\<rparr>]"
  have e: "getSignals ?data
      \<lparr>manualProcesses = [], autoDetectProcess = True, autoDetectUntil = 2,
       datesToExclude = {2}\<rparr> = Inr ?R"
    by (simp add: eval_simps)
  from excluded_points_never_signal [THEN conjunct1, rule_format, OF disjI1, OF e] e
  have 1: "getSignals ?data
      \<lparr>manualProcesses = [], autoDetectProcess = True, autoDetectUntil = 2,
       datesToExclude = {2}\<rparr> = Inr ?R
    \<and> dom (signals (hd ?R)) \<inter> {2 :: int} = {}" by simp
  from excluded_points_never_signal [THEN conjunct2, THEN conjunct2, THEN conjunct2, THEN conjunct1,
      of ?data "\<lparr>manualProcesses = [], autoDetectProcess = True, autoDetectUntil = 2,
           datesToExclude = {1, 2}\<rparr>"]
  have 2: "\<exists>p. getSignals ?data
          \<lparr>manualProcesses = [], autoDetectProcess = True, autoDetectUntil = 2,
           datesToExclude = {1, 2}\<rparr> = Inr [p]
        \<and> signals p = Map.empty \<and> startIndex p = 0 \<and> endIndex p = 1
        \<and> pmean p = None \<and> psd p = None" by simp
  from 1 2 show ?thesis by simp
qed

section \<open>Manual break points\<close>

text \<open>
  C8, as amended. Under automatic detection \<open>displayChart\<close> ignores the manual break
  points, whatever they are: it starts from the single process at index 0, as
  \<open>getSignals\<close> does on the sorted series, it does not raise, and its processes
  partition the series.
\<close>

theorem manual_breakpoints_ignored_under_detection:
  assumes "autoDetectProcess props"
  shows "displayChart data props = getSignals (sort_key Date data) props
         \<and> displayChart data (props\<lparr>manualProcesses := ms\<rparr>) = displayChart data props
         \<and> (\<exists>ps. displayChart data props = Inr ps \<and> partitions (length data) ps)"
proof (intro conjI)
  from assms show "displayChart data props = getSignals (sort_key Date data) props"
    by (simp add: displayChart_def getSignals_def configureProperties_def Let_def)
  from assms show "displayChart data (props\<lparr>manualProcesses := ms\<rparr>) = displayChart data props"
    by (simp add: displayChart_def configureProperties_def Let_def)
  from assms have "autoDetectProcess props
      \<or> manual_ok (length (sort_key Date data)) (manualProcesses props)" by simp
  from calculateSignals_partitions [OF displayChart_seg_inv [OF this]]
  show "\<exists>ps. displayChart data props = Inr ps \<and> partitions (length data) ps"
    unfolding displayChart_def Let_def by simp
qed

text \<open>An instance: two points, detection on, break points 5 and -1 outside the series.\<close>

theorem manual_breakpoints_ignored_under_detection_witness:
  "autoDetectProcess \<lparr>manualProcesses = [5, -1], autoDetectProcess = True, autoDetectUntil = 20,
         datesToExclude = {}\<rparr>
   \<and> displayChart [\<lparr>Date = 10, Count = 5\<rparr>, \<lparr>Date = 20, Count = 5\<rparr>]
        \<lparr>manualProcesses = [], autoDetectProcess = True, autoDetectUntil = 20,
         datesToExclude = {}\<rparr>
     = displayChart [\<lparr>Date = 10, Count = 5\<rparr>, \<lparr>Date = 20, Count = 5\<rparr>]
        \<lparr>manualProcesses = [5, -1], autoDetectProcess = True, autoDetectUntil = 20,
         datesToExclude = {}\<rparr>
   \<and> (\<exists>ps. displayChart [\<lparr>Date = 10, Count = 5\<rparr>, \<lparr>Date = 20, Count = 5\<rparr>]
        \<lparr>manualProcesses = [5, -1], autoDetectProcess = True, autoDetectUntil = 20,
         datesToExclude = {}\<rparr> = Inr ps \<and> partitions 2 ps)"
  using manual_breakpoints_ignored_under_detection
    [of "\<lparr>manualProcesses = [5, -1], autoDetectProcess = True, autoDetectUntil = 20,
         datesToExclude = {}\<rparr>" "[\<lparr>Date = 10, Count = 5\<rparr>, \<lparr>Date = 20, Count = 5\<rparr>]" "[]",
     THEN conjunct2]
  by (simp add: numeral_2_eq_2)

text \<open>
  With detection off, break points outside the series are neither clamped nor ignored. On
  two points, the break point 5 leaves a second process that starts at index 5, beyond the
  series, and ends at index 1; the break point -1 makes the scan of the second process read
  \<open>data[-1]\<close>, which raises.
\<close>

theorem out_of_bounds_breakpoints_counterexample:
  "map_sum id (map bounds)
     (displayChart [\<lparr>Date = 10, Count = 5\<rparr>, \<lparr>Date = 20, Count = 5\<rparr>]
        \<lparr>manualProcesses = [5], autoDetectProcess = False, autoDetectUntil = 20,
         datesToExclude = {}\<rparr>)
   = Inr [(0, 1, 4), (5, 1, 1)]
   \<and> displayChart [\<lparr>Date = 10, Count = 5\<rparr>, \<lparr>Date = 20, Count = 5\<rparr>]
        \<lparr>manualProcesses = [-1], autoDetectProcess = False, autoDetectUntil = 20,
         datesToExclude = {}\<rparr>
   = Inl TypeError"
  by (simp add: eval_simps)

section \<open>The step scenario\<close>

subsection \<open>What decides a new process\<close>














subsection \<open>Sixteen points with a step after the eighth\<close>





















end
